theory Spec2Isabelle
  imports Main "HOL-Library.Word"
begin

unbundle bit_operations_syntax

section \<open>Primitive types and abnormal termination\<close>

text \<open>
  The embedding follows \<^verbatim>\<open>src/main.c\<close> on a 64-bit target: \<^verbatim>\<open>uptr\<close> is a 64-bit
  word, \<^verbatim>\<open>u8\<close> and \<^verbatim>\<open>u32\<close> are 8- and 32-bit words. Values of type \<^verbatim>\<open>isize\<close> and
  \<^verbatim>\<open>int\<close> are mathematical integers (signed overflow is undefined in C, and the
  code never relies on it); \<open>isize_ok\<close> is the range of \<^verbatim>\<open>isize\<close>. A pointer is the
  integer address it holds, \<^verbatim>\<open>NULL\<close> is the address 0.
\<close>

type_synonym u8 = "8 word"
type_synonym u32 = "32 word"
type_synonym uptr = "64 word"
type_synonym ptr = int

definition NULL :: ptr where
  "NULL = 0"


text \<open>
  Every way in which control leaves the normal flow: \<^verbatim>\<open>abort()\<close> after the arena
  overflow message, a failed \<^verbatim>\<open>assert\<close>, a read outside the buffer a pointer belongs to,
  the \<^verbatim>\<open>UNREACHABLE()\<close> branch, and \<^verbatim>\<open>return 1\<close> from \<^verbatim>\<open>main\<close> after \<^verbatim>\<open>LOG_ERROR\<close>
  with the given message.
\<close>

datatype error =
    ArenaOverflow
  | AssertFailed
  | OutOfBounds
  | Unreachable
  | Exit1 string

text \<open>Sequencing of computations that may stop with an \<open>error\<close>.\<close>

definition bind_err :: "error + 'a \<Rightarrow> ('a \<Rightarrow> error + 'b) \<Rightarrow> error + 'b" where
  "bind_err r f = (case r of Inl e \<Rightarrow> Inl e | Inr x \<Rightarrow> f x)"

lemma bind_err_simps [simp]:
  "bind_err (Inl e) f = Inl e"
  "bind_err (Inr x) f = f x"
  by (simp_all add: bind_err_def)

lemma bind_err_cong [fundef_cong]:
  assumes "r = r'" "\<And>x. r' = Inr x \<Longrightarrow> f x = f' x"
  shows "bind_err r f = bind_err r' f'"
  using assms by (cases r') (simp_all add: bind_err_def)

section \<open>Arena allocator\<close>

definition ARENA_DEFAULT_ALIGNMENT :: int where
  "ARENA_DEFAULT_ALIGNMENT = 16"

record Arena =
  begin_ptr :: ptr
  end_ptr :: ptr

text \<open>The condition of the \<^verbatim>\<open>assert\<close> at the head of \<^verbatim>\<open>arena_alloc_aligned\<close>.\<close>

definition alignment_ok :: "int \<Rightarrow> bool" where
  "alignment_ok alignment = (alignment > 0 \<and> (alignment AND (alignment - 1)) = 0)"

text \<open>
  \<^verbatim>\<open>(isize)((~(uptr)arena->begin + 1) & ((uptr)alignment - 1))\<close>
\<close>

definition arena_padding :: "Arena \<Rightarrow> int \<Rightarrow> int" where
  "arena_padding arena alignment =
     sint ((NOT (word_of_int (begin_ptr arena) :: uptr) + 1) AND ((word_of_int alignment :: uptr) - 1))"

definition arena_alloc_aligned :: "Arena \<Rightarrow> int \<Rightarrow> int \<Rightarrow> error + (ptr \<times> Arena)" where
  "arena_alloc_aligned arena sz alignment =
     (if \<not> alignment_ok alignment then Inl AssertFailed
      else if sz = 0 then Inr (NULL, arena)
      else
        let padding = arena_padding arena alignment;
            memory_left = end_ptr arena - begin_ptr arena - padding
        in if memory_left < 0 \<or> memory_left < sz then Inl ArenaOverflow
           else Inr (begin_ptr arena + padding,
                     arena\<lparr>begin_ptr := begin_ptr arena + (padding + sz)\<rparr>))"

definition arena_alloc :: "Arena \<Rightarrow> int \<Rightarrow> error + (ptr \<times> Arena)" where
  "arena_alloc arena sz = arena_alloc_aligned arena sz ARENA_DEFAULT_ALIGNMENT"

text \<open>
  Byte-addressed memory, for the one place where the allocator copies bytes.
  \<^verbatim>\<open>memcpy(dst, src, n)\<close> on regions that do not overlap.
\<close>

type_synonym memory = "ptr \<Rightarrow> u8"

definition memcpy :: "memory \<Rightarrow> ptr \<Rightarrow> ptr \<Rightarrow> int \<Rightarrow> memory" where
  "memcpy mem dst src n = (\<lambda>a. if dst \<le> a \<and> a < dst + n then mem (src + (a - dst)) else mem a)"

text \<open>
  \<^verbatim>\<open>arena_realloc\<close>. The cast \<^verbatim>\<open>(size_t)old_size\<close> of a negative size asks
  \<^verbatim>\<open>memcpy\<close> for more bytes than any object has.
\<close>

definition arena_realloc ::
  "memory \<Rightarrow> Arena \<Rightarrow> ptr \<Rightarrow> int \<Rightarrow> int \<Rightarrow> error + (ptr \<times> Arena \<times> memory)" where
  "arena_realloc mem arena old_ptr old_size new_size =
     (if old_size \<ge> new_size then Inr (old_ptr, arena, mem)
      else if old_ptr \<noteq> NULL \<and> old_ptr + old_size = begin_ptr arena then
        (case arena_alloc (arena\<lparr>begin_ptr := old_ptr\<rparr>) new_size of
           Inl e \<Rightarrow> Inl e
         | Inr (p, arena') \<Rightarrow> Inr (p, arena', mem))
      else
        (case arena_alloc arena new_size of
           Inl e \<Rightarrow> Inl e
         | Inr (new_ptr, arena') \<Rightarrow>
             if old_size < 0 then Inl OutOfBounds
             else Inr (new_ptr, arena', memcpy mem new_ptr old_ptr old_size)))"

section \<open>UTF-8 decoding and validation\<close>

text \<open>
  The table \<^verbatim>\<open>utf8_char_size\<close>, indexed by the first byte of a character, one row
  of sixteen entries per line of the source.
\<close>

definition utf8_char_size_table :: "u8 list" where
  "utf8_char_size_table =
     [1, 1, 1, 1, 1, 1, 1, 1, 1, 1, 1, 1, 1, 1, 1, 1] @
     [1, 1, 1, 1, 1, 1, 1, 1, 1, 1, 1, 1, 1, 1, 1, 1] @
     [1, 1, 1, 1, 1, 1, 1, 1, 1, 1, 1, 1, 1, 1, 1, 1] @
     [1, 1, 1, 1, 1, 1, 1, 1, 1, 1, 1, 1, 1, 1, 1, 1] @
     [1, 1, 1, 1, 1, 1, 1, 1, 1, 1, 1, 1, 1, 1, 1, 1] @
     [1, 1, 1, 1, 1, 1, 1, 1, 1, 1, 1, 1, 1, 1, 1, 1] @
     [1, 1, 1, 1, 1, 1, 1, 1, 1, 1, 1, 1, 1, 1, 1, 1] @
     [1, 1, 1, 1, 1, 1, 1, 1, 1, 1, 1, 1, 1, 1, 1, 1] @
     [0, 0, 0, 0, 0, 0, 0, 0, 0, 0, 0, 0, 0, 0, 0, 0] @
     [0, 0, 0, 0, 0, 0, 0, 0, 0, 0, 0, 0, 0, 0, 0, 0] @
     [0, 0, 0, 0, 0, 0, 0, 0, 0, 0, 0, 0, 0, 0, 0, 0] @
     [0, 0, 0, 0, 0, 0, 0, 0, 0, 0, 0, 0, 0, 0, 0, 0] @
     [0, 0, 2, 2, 2, 2, 2, 2, 2, 2, 2, 2, 2, 2, 2, 2] @
     [2, 2, 2, 2, 2, 2, 2, 2, 2, 2, 2, 2, 2, 2, 2, 2] @
     [3, 3, 3, 3, 3, 3, 3, 3, 3, 3, 3, 3, 3, 3, 3, 3] @
     [4, 4, 4, 4, 4, 0, 0, 0, 0, 0, 0, 0, 0, 0, 0, 0]"

definition utf8_char_size :: "u8 \<Rightarrow> int" where
  "utf8_char_size b = uint (utf8_char_size_table ! unat b)"

text \<open>
  A \<^verbatim>\<open>StringView\<close> points into a byte buffer; its \<^verbatim>\<open>data\<close> pointer is kept as the
  offset from the first byte of that buffer. Reading a byte outside the buffer is the
  error \<open>OutOfBounds\<close>.
\<close>

record StringView =
  sv_data :: int
  sv_size :: int

definition read_u8 :: "u8 list \<Rightarrow> int \<Rightarrow> error + u8" where
  "read_u8 mem i = (if 0 \<le> i \<and> i < int (length mem) then Inr (mem ! nat i) else Inl OutOfBounds)"

text \<open>
  \<^verbatim>\<open>utf8_chop_char\<close> returns the slice it consumed, the advanced string and the
  character code. It reads as many bytes as the table announces without looking at the
  size of the string.
\<close>

definition utf8_chop_char :: "u8 list \<Rightarrow> StringView \<Rightarrow> error + (StringView \<times> StringView \<times> u32)" where
  "utf8_chop_char mem string =
     bind_err (read_u8 mem (sv_data string)) (\<lambda>b0.
       let char_size = utf8_char_size b0 in
       bind_err
         (if char_size = 1 then
            Inr (ucast b0)
          else if char_size = 2 then
            bind_err (read_u8 mem (sv_data string + 1)) (\<lambda>b1.
              Inr (push_bit 6 (ucast (b0 AND 0x1f)) OR
                   ucast (b1 AND 0x3f)))
          else if char_size = 3 then
            bind_err (read_u8 mem (sv_data string + 1)) (\<lambda>b1.
            bind_err (read_u8 mem (sv_data string + 2)) (\<lambda>b2.
              Inr (push_bit 12 (ucast (b0 AND 0x0f)) OR
                   push_bit 6 (ucast (b1 AND 0x3f)) OR
                   ucast (b2 AND 0x3f))))
          else if char_size = 4 then
            bind_err (read_u8 mem (sv_data string + 1)) (\<lambda>b1.
            bind_err (read_u8 mem (sv_data string + 2)) (\<lambda>b2.
            bind_err (read_u8 mem (sv_data string + 3)) (\<lambda>b3.
              Inr (push_bit 18 (ucast (b0 AND 0x07)) OR
                   push_bit 12 (ucast (b1 AND 0x3f)) OR
                   push_bit 6 (ucast (b2 AND 0x3f)) OR
                   ucast (b3 AND 0x3f)))))
          else Inl Unreachable)
         (\<lambda>char_code :: u32.
            Inr (\<lparr>sv_data = sv_data string, sv_size = char_size\<rparr>,
                 string\<lparr>sv_data := sv_data string + char_size,
                        sv_size := sv_size string - char_size\<rparr>,
                 char_code)))"

lemma utf8_chop_char_size:
  assumes "utf8_chop_char mem string = Inr (result, string', char_code)"
  shows "sv_size string' < sv_size string"
proof -
  from assms obtain b0 where b0: "read_u8 mem (sv_data string) = Inr b0"
    by (cases "read_u8 mem (sv_data string)") (simp_all add: utf8_chop_char_def)
  have "utf8_char_size b0 \<in> {1, 2, 3, 4}"
    using assms b0 by (auto simp: utf8_chop_char_def Let_def split: if_splits)
  moreover have "sv_size string' = sv_size string - utf8_char_size b0"
    using assms b0 by (auto simp: utf8_chop_char_def Let_def bind_err_def split: if_splits sum.splits)
  ultimately show ?thesis by auto
qed

function utf8_validate :: "u8 list \<Rightarrow> StringView \<Rightarrow> error + bool" where
  "utf8_validate mem string =
     (if sv_size string > 0 then
        bind_err (read_u8 mem (sv_data string)) (\<lambda>b0.
          let char_size = utf8_char_size b0 in
          if char_size = 0 \<or> sv_size string < char_size then Inr False
          else
            bind_err (utf8_chop_char mem string) (\<lambda>(result, string', char_code).
              if char_size = 3 \<and> (char_code < 0x0800 \<or> char_code > 0xffff) then Inr False
              else if char_size = 3 \<and> (char_code \<ge> 0xd800 \<and> char_code \<le> 0xdfff) then Inr False
              else if char_size = 4 \<and> (char_code < 0x10000 \<or> char_code > 0x10ffff) then Inr False
              else utf8_validate mem string'))
      else Inr True)"
  by pat_completeness auto
termination
  by (relation "measure (\<lambda>(mem, string). nat (sv_size string))")
     (auto dest: utf8_chop_char_size)

declare utf8_validate.simps [simp del]

subsection \<open>Whitespace\<close>

definition char_is_space :: "u32 \<Rightarrow> bool" where
  "char_is_space char_code =
     (char_code = 0x0020 \<or>
      char_code = 0x0009 \<or>
      char_code = 0x000a \<or>
      char_code = 0x000c \<or>
      char_code = 0x000d)"

section \<open>Reading the legend file\<close>

record String =
  str_data :: ptr
  str_size :: int
  str_capacity :: int

text \<open>
  The bytes of a view, as \<^verbatim>\<open>memcpy\<close> copies them out of the buffer, and
  \<^verbatim>\<open>as_string_view\<close> of a string whose bytes are the whole buffer.
\<close>

definition view_bytes :: "u8 list \<Rightarrow> StringView \<Rightarrow> u8 list" where
  "view_bytes mem string = take (nat (sv_size string)) (drop (nat (sv_data string)) mem)"

definition view_of :: "u8 list \<Rightarrow> StringView" where
  "view_of mem = \<lparr>sv_data = 0, sv_size = int (length mem)\<rparr>"

text \<open>What \<^verbatim>\<open>fread\<close> stores at an address, and the bytes found at an address.\<close>

definition store_bytes :: "memory \<Rightarrow> ptr \<Rightarrow> u8 list \<Rightarrow> memory" where
  "store_bytes mem p bytes =
     (\<lambda>a. if p \<le> a \<and> a < p + int (length bytes) then bytes ! nat (a - p) else mem a)"

definition load_bytes :: "memory \<Rightarrow> ptr \<Rightarrow> int \<Rightarrow> u8 list" where
  "load_bytes mem p n = map (\<lambda>i. mem (p + int i)) [0..<nat n]"

text \<open>
  \<^verbatim>\<open>file_read_to_string\<close>. The file is \<open>None\<close> when it cannot be opened or measured
  (\<^verbatim>\<open>fopen\<close>, \<^verbatim>\<open>fseek\<close>, \<^verbatim>\<open>ftell\<close>), otherwise its bytes together with whether \<^verbatim>\<open>fread\<close>
  got them without error.
\<close>

definition file_read_to_string ::
  "memory \<Rightarrow> (u8 list \<times> bool) option \<Rightarrow> String \<Rightarrow> Arena
     \<Rightarrow> error + (bool \<times> String \<times> Arena \<times> memory)" where
  "file_read_to_string mem file string arena =
     (case file of
        None \<Rightarrow> Inr (False, string, arena, mem)
      | Some (bytes, read_ok) \<Rightarrow>
          let file_size = int (length bytes) in
          bind_err
            (if str_size string + file_size > str_capacity string then
               let new_capacity = str_size string + file_size in
               bind_err (arena_realloc mem arena (str_data string) (str_capacity string) new_capacity)
                 (\<lambda>(p, arena', mem').
                    Inr (string\<lparr>str_data := p, str_capacity := new_capacity\<rparr>, arena', mem'))
             else Inr (string, arena, mem))
            (\<lambda>(string', arena', mem').
               if \<not> read_ok then Inr (False, string', arena', mem')
               else Inr (True,
                         string'\<lparr>str_size := str_size string' + file_size\<rparr>,
                         arena',
                         store_bytes mem' (str_data string' + str_size string') bytes)))"

section \<open>Glyph extraction\<close>

definition GLYPH_WIDTH :: int where
  "GLYPH_WIDTH = 8"

definition GLYPH_HEIGHT :: int where
  "GLYPH_HEIGHT = 8"

definition ARENA_CAPACITY :: int where
  "ARENA_CAPACITY = 64 * 1024 * 1024"

text \<open>
  \<^verbatim>\<open>sizeof(Glyph)\<close> and \<^verbatim>\<open>sizeof(u32)\<close> on the 64-bit target: a \<^verbatim>\<open>u32\<close>, four bytes of
  padding and two pointers.
\<close>

definition sizeof_Glyph :: int where
  "sizeof_Glyph = 24"

definition sizeof_u32 :: int where
  "sizeof_u32 = 4"

text \<open>
  The anonymous struct \<^verbatim>\<open>font\<close> that \<^verbatim>\<open>stbi_load\<close> fills. Pointers into the pixel
  buffer are offsets from its first byte.
\<close>

record Font =
  width :: int
  height :: int
  bytes_per_color :: int
  data :: "u8 list"

text \<open>The pre-scan that counts the characters of the legend that are not whitespace.\<close>

function count_font_chars :: "u8 list \<Rightarrow> StringView \<Rightarrow> int \<Rightarrow> error + int" where
  "count_font_chars mem font_char_iter font_char_count =
     (if sv_size font_char_iter > 0 then
        bind_err (utf8_chop_char mem font_char_iter) (\<lambda>(char_data, font_char_iter', char_code).
          count_font_chars mem font_char_iter'
            (if \<not> char_is_space char_code then font_char_count + 1 else font_char_count))
      else Inr font_char_count)"
  by pat_completeness auto
termination
  by (relation "measure (\<lambda>(mem, font_char_iter, font_char_count). nat (sv_size font_char_iter))")
     (auto dest: utf8_chop_char_size)

declare count_font_chars.simps [simp del]

text \<open>
  The emptiness test of one cell: both loops stop as soon as \<^verbatim>\<open>glyph_is_empty\<close> is
  false.
\<close>

function glyph_is_empty_x :: "Font \<Rightarrow> int \<Rightarrow> bool \<Rightarrow> int \<Rightarrow> error + bool" where
  "glyph_is_empty_x font glyph_line_start glyph_is_empty glyph_x =
     (if glyph_is_empty \<and> glyph_x < GLYPH_WIDTH then
        bind_err (read_u8 (data font) (glyph_line_start + glyph_x * bytes_per_color font)) (\<lambda>color.
          glyph_is_empty_x font glyph_line_start
            (if color = 0x00 then False else glyph_is_empty) (glyph_x + 1))
      else Inr glyph_is_empty)"
  by pat_completeness auto
termination
  by (relation "measure (\<lambda>(font, glyph_line_start, glyph_is_empty, glyph_x). nat (GLYPH_WIDTH - glyph_x))")
     auto

declare glyph_is_empty_x.simps [simp del]

function glyph_is_empty_y :: "Font \<Rightarrow> int \<Rightarrow> bool \<Rightarrow> int \<Rightarrow> error + bool" where
  "glyph_is_empty_y font glyph_line_start glyph_is_empty glyph_y =
     (if glyph_is_empty \<and> glyph_y < GLYPH_HEIGHT then
        bind_err (glyph_is_empty_x font glyph_line_start glyph_is_empty 0) (\<lambda>glyph_is_empty'.
          glyph_is_empty_y font (glyph_line_start + width font * bytes_per_color font)
            glyph_is_empty' (glyph_y + 1))
      else Inr glyph_is_empty)"
  by pat_completeness auto
termination
  by (relation "measure (\<lambda>(font, glyph_line_start, glyph_is_empty, glyph_y). nat (GLYPH_HEIGHT - glyph_y))")
     auto

declare glyph_is_empty_y.simps [simp del]

text \<open>The expansion of one cell into the 64 entries of the bitmap.\<close>

function expand_x :: "Font \<Rightarrow> int \<Rightarrow> int \<Rightarrow> u32 list \<Rightarrow> int \<Rightarrow> error + u32 list" where
  "expand_x font glyph_line_start glyph_y bitmap glyph_x =
     (if glyph_x < GLYPH_WIDTH then
        bind_err (read_u8 (data font) (glyph_line_start + glyph_x * bytes_per_color font)) (\<lambda>color.
          expand_x font glyph_line_start glyph_y
            (if color = 0x00 then bitmap[nat (glyph_y * GLYPH_WIDTH + glyph_x) := 0xff000000]
             else bitmap[nat (glyph_y * GLYPH_WIDTH + glyph_x) := 0x00000000])
            (glyph_x + 1))
      else Inr bitmap)"
  by pat_completeness auto
termination
  by (relation "measure (\<lambda>(font, glyph_line_start, glyph_y, bitmap, glyph_x). nat (GLYPH_WIDTH - glyph_x))")
     auto

declare expand_x.simps [simp del]

function expand_y :: "Font \<Rightarrow> int \<Rightarrow> u32 list \<Rightarrow> int \<Rightarrow> error + u32 list" where
  "expand_y font glyph_line_start bitmap glyph_y =
     (if glyph_y < GLYPH_HEIGHT then
        bind_err (expand_x font glyph_line_start glyph_y bitmap 0) (\<lambda>bitmap'.
          expand_y font (glyph_line_start + width font * bytes_per_color font) bitmap' (glyph_y + 1))
      else Inr bitmap)"
  by pat_completeness auto
termination
  by (relation "measure (\<lambda>(font, glyph_line_start, bitmap, glyph_y). nat (GLYPH_HEIGHT - glyph_y))")
     auto

declare expand_y.simps [simp del]

text \<open>
  The \<^verbatim>\<open>do ... while\<close> loop that fetches the next character of the legend that is not
  whitespace. It stops at the latest when a read leaves the buffer.
\<close>

lemma utf8_chop_char_data:
  assumes "utf8_chop_char mem string = Inr (result, string', char_code)"
  shows "sv_data string < int (length mem) \<and> sv_data string < sv_data string'"
proof -
  from assms obtain b0 where b0: "read_u8 mem (sv_data string) = Inr b0"
    by (cases "read_u8 mem (sv_data string)") (simp_all add: utf8_chop_char_def)
  have "utf8_char_size b0 \<in> {1, 2, 3, 4}"
    using assms b0 by (auto simp: utf8_chop_char_def Let_def split: if_splits)
  moreover have "sv_data string' = sv_data string + utf8_char_size b0"
    using assms b0 by (auto simp: utf8_chop_char_def Let_def bind_err_def split: if_splits sum.splits)
  moreover have "sv_data string < int (length mem)"
    using b0 by (simp add: read_u8_def split: if_splits)
  ultimately show ?thesis by auto
qed

function next_font_char :: "u8 list \<Rightarrow> StringView \<Rightarrow> error + (StringView \<times> StringView \<times> u32)" where
  "next_font_char mem font_char_iter =
     bind_err (utf8_chop_char mem font_char_iter) (\<lambda>(char_data, font_char_iter', char_code).
       if char_is_space char_code then next_font_char mem font_char_iter'
       else Inr (char_data, font_char_iter', char_code))"
  by pat_completeness auto
termination
  by (relation "measure (\<lambda>(mem, font_char_iter). nat (int (length mem) - sv_data font_char_iter))")
     (auto dest: utf8_chop_char_data)

declare next_font_char.simps [simp del]

text \<open>
  A glyph holds two pointers into blocks of the arena that nothing else ever writes to.
  Each block is kept as the values stored in it: the copied bytes of the character with
  the final 0, and the 64 entries of the bitmap.
\<close>

record Glyph =
  char_code :: u32
  char_data :: "u8 list"
  bitmap :: "u32 list"

text \<open>
  The variables of \<^verbatim>\<open>main\<close> that the scan of the grid changes. \<open>st_glyphs\<close> holds the
  entries of the output array written so far, so that \<^verbatim>\<open>glyph_iter - glyphs\<close> is its
  length and \<^verbatim>\<open>glyph_iter == glyphs_end\<close> says that this length is
  \<^verbatim>\<open>font_char_count\<close>.
\<close>

record scan_state =
  st_glyphs :: "Glyph list"
  st_font_char_iter :: StringView
  st_arena :: Arena

definition more_glyphs_message :: string where
  "more_glyphs_message = ''There are more glyphs in the bitmap than chars in the text file.''"

definition more_chars_message :: string where
  "more_chars_message = ''There are more chars in the text file than glyphs in the bitmap.''"

text \<open>The body of the two loops over the grid, for the cell at the given pixel position.\<close>

definition cell_step ::
  "u8 list \<Rightarrow> Font \<Rightarrow> int \<Rightarrow> int \<Rightarrow> int \<Rightarrow> scan_state \<Rightarrow> error + scan_state" where
  "cell_step chars font font_char_count font_grid_y font_grid_x st =
     (let font_data_index = font_grid_y * width font + font_grid_x in
      bind_err (glyph_is_empty_y font (font_data_index * bytes_per_color font) True 0)
        (\<lambda>glyph_is_empty.
          if \<not> glyph_is_empty then
            if int (length (st_glyphs st)) = font_char_count then
              Inl (Exit1 more_glyphs_message)
            else
              bind_err (next_font_char chars (st_font_char_iter st))
                (\<lambda>(char_data, font_char_iter', char_code).
              bind_err (arena_alloc_aligned (st_arena st) (sv_size char_data + 1) 1)
                (\<lambda>(char_data_ptr, arena1).
              bind_err (arena_alloc_aligned arena1 (GLYPH_WIDTH * GLYPH_HEIGHT * sizeof_u32) 4)
                (\<lambda>(bitmap_ptr, arena2).
              bind_err (expand_y font (font_data_index * bytes_per_color font) (replicate 64 0) 0)
                (\<lambda>bitmap.
                  Inr \<lparr>st_glyphs = st_glyphs st @
                         [\<lparr>char_code = char_code,
                           char_data = view_bytes chars char_data @ [0],
                           bitmap = bitmap\<rparr>],
                       st_font_char_iter = font_char_iter',
                       st_arena = arena2\<rparr>))))
          else Inr st))"

function grid_x_loop ::
  "u8 list \<Rightarrow> Font \<Rightarrow> int \<Rightarrow> int \<Rightarrow> int \<Rightarrow> scan_state \<Rightarrow> error + scan_state" where
  "grid_x_loop chars font font_char_count font_grid_y font_grid_x st =
     (if font_grid_x < width font then
        bind_err (cell_step chars font font_char_count font_grid_y font_grid_x st) (\<lambda>st'.
          grid_x_loop chars font font_char_count font_grid_y (font_grid_x + GLYPH_WIDTH) st')
      else Inr st)"
  by pat_completeness auto
termination
  by (relation "measure (\<lambda>(chars, font, font_char_count, font_grid_y, font_grid_x, st).
                  nat (width font - font_grid_x))")
     (auto simp: GLYPH_WIDTH_def)

declare grid_x_loop.simps [simp del]

function grid_y_loop ::
  "u8 list \<Rightarrow> Font \<Rightarrow> int \<Rightarrow> int \<Rightarrow> scan_state \<Rightarrow> error + scan_state" where
  "grid_y_loop chars font font_char_count font_grid_y st =
     (if font_grid_y < height font then
        bind_err (grid_x_loop chars font font_char_count font_grid_y 0 st) (\<lambda>st'.
          grid_y_loop chars font font_char_count (font_grid_y + GLYPH_HEIGHT) st')
      else Inr st)"
  by pat_completeness auto
termination
  by (relation "measure (\<lambda>(chars, font, font_char_count, font_grid_y, st).
                  nat (height font - font_grid_y))")
     (auto simp: GLYPH_HEIGHT_def)

declare grid_y_loop.simps [simp del]

text \<open>
  \<^verbatim>\<open>main\<close> from the validation of the legend to its end, for the bytes of
  \<^verbatim>\<open>font_chars\<close> and the result of \<^verbatim>\<open>stbi_load\<close> (\<open>None\<close> for \<^verbatim>\<open>NULL\<close>). A result
  \<open>Inr glyphs\<close> stands for the call of \<^verbatim>\<open>glyphs_print\<close> on the table followed by
  \<^verbatim>\<open>return 0\<close>. The remainders \<^verbatim>\<open>font.width % GLYPH_WIDTH\<close> of C and \<open>mod\<close> are zero
  for the same numbers.
\<close>

definition extract_glyphs :: "Arena \<Rightarrow> u8 list \<Rightarrow> Font option \<Rightarrow> error + Glyph list" where
  "extract_glyphs arena0 chars loaded =
     bind_err (utf8_validate chars (view_of chars)) (\<lambda>valid.
       if \<not> valid then Inl (Exit1 ''Failed to load font chars due to invalid UTF-8.'')
       else
         bind_err (count_font_chars chars (view_of chars) 0) (\<lambda>font_char_count.
           case loaded of
             None \<Rightarrow> Inl (Exit1 ''Failed to load font glyphs from the file.'')
           | Some font \<Rightarrow>
               if width font mod GLYPH_WIDTH \<noteq> 0 \<or> height font mod GLYPH_HEIGHT \<noteq> 0 then
                 Inl (Exit1 ''Font bitmap dimensions are not divisble by the glyph dimensions.'')
               else
                 bind_err (arena_alloc arena0 (font_char_count * sizeof_Glyph))
                   (\<lambda>(glyphs_ptr, arena1).
                 bind_err (grid_y_loop chars font font_char_count 0
                             \<lparr>st_glyphs = [], st_font_char_iter = view_of chars, st_arena = arena1\<rparr>)
                   (\<lambda>st.
                     if int (length (st_glyphs st)) \<noteq> font_char_count then
                       Inl (Exit1 more_chars_message)
                     else Inr (st_glyphs st)))))"

text \<open>
  The whole of \<^verbatim>\<open>main\<close>: \<open>mem\<close> is the memory before the run, \<open>arena_memory\<close> the result
  of \<^verbatim>\<open>malloc\<close>, \<open>file\<close> the legend file and \<open>loaded\<close> the result of \<^verbatim>\<open>stbi_load\<close>.
\<close>

definition main ::
  "memory \<Rightarrow> ptr \<Rightarrow> (u8 list \<times> bool) option \<Rightarrow> Font option \<Rightarrow> error + Glyph list" where
  "main mem arena_memory file loaded =
     (if arena_memory = NULL then Inl (Exit1 ''Failed to allocate the arena.'')
      else
        let arena0 = \<lparr>begin_ptr = arena_memory, end_ptr = arena_memory + ARENA_CAPACITY\<rparr>;
            font_chars = \<lparr>str_data = NULL, str_size = 0, str_capacity = 0\<rparr>
        in bind_err (file_read_to_string mem file font_chars arena0)
             (\<lambda>(ok, font_chars', arena1, mem').
                if \<not> ok then Inl (Exit1 ''Failed to load font chars from the file.'')
                else extract_glyphs arena1 (load_bytes mem' (str_data font_chars') (str_size font_chars')) loaded))"

text \<open>The exit code of the process, when it exits rather than aborts.\<close>

definition exit_code :: "error + Glyph list \<Rightarrow> int option" where
  "exit_code r =
     (case r of Inr glyphs \<Rightarrow> Some 0 | Inl (Exit1 message) \<Rightarrow> Some 1 | Inl e \<Rightarrow> None)"

section \<open>Notions used to state the properties\<close>

text \<open>A sequence of allocation requests (size, alignment), and the room left in an arena.\<close>

fun alloc_seq :: "Arena \<Rightarrow> (int \<times> int) list \<Rightarrow> error + Arena" where
  "alloc_seq arena [] = Inr arena"
| "alloc_seq arena ((sz, alignment) # reqs) =
     (case arena_alloc_aligned arena sz alignment of
        Inl e \<Rightarrow> Inl e
      | Inr (p, arena') \<Rightarrow> alloc_seq arena' reqs)"

definition memory_remaining :: "Arena \<Rightarrow> int" where
  "memory_remaining arena = end_ptr arena - begin_ptr arena"

text \<open>
  Unicode scalar values and their canonical UTF-8 encoding (RFC 3629), which the source
  does not contain: one byte below U+0080, two below U+0800, three below U+10000, four
  otherwise, with the bits of the code point spread over the payload bits.
\<close>

definition is_scalar :: "u32 \<Rightarrow> bool" where
  "is_scalar c = (c \<le> 0xD7FF \<or> (0xE000 \<le> c \<and> c \<le> 0x10FFFF))"

definition utf8_encode :: "u32 \<Rightarrow> u8 list" where
  "utf8_encode c =
     (if c < 0x80 then
        [ucast c]
      else if c < 0x800 then
        [0xC0 OR ucast (drop_bit 6 c),
         0x80 OR ucast (c AND 0x3f)]
      else if c < 0x10000 then
        [0xE0 OR ucast (drop_bit 12 c),
         0x80 OR ucast (drop_bit 6 c AND 0x3f),
         0x80 OR ucast (c AND 0x3f)]
      else
        [0xF0 OR ucast (drop_bit 18 c),
         0x80 OR ucast (drop_bit 12 c AND 0x3f),
         0x80 OR ucast (drop_bit 6 c AND 0x3f),
         0x80 OR ucast (c AND 0x3f)])"

text \<open>The table, read as ranges of the first byte.\<close>

definition char_size_spec :: "nat \<Rightarrow> int" where
  "char_size_spec n =
     (if n < 0x80 then 1 else if n < 0xc2 then 0 else if n < 0xe0 then 2
      else if n < 0xf0 then 3 else if n < 0xf5 then 4 else 0)"

section \<open>Notions used to state the properties of the extraction\<close>

text \<open>
  What \<^verbatim>\<open>stbi_load\<close> promises of a loaded image: a buffer of
  \<open>width * height * bytes_per_color\<close> bytes, with at least one byte per pixel.
\<close>

definition font_ok :: "Font \<Rightarrow> bool" where
  "font_ok font =
     (0 \<le> width font \<and> 0 \<le> height font \<and> 0 < bytes_per_color font
      \<and> int (length (data font)) = width font * height font * bytes_per_color font)"

text \<open>
  A cell is named by the pixel position \<open>(font_grid_y, font_grid_x)\<close> of its upper left
  corner. \<open>cell_pixel\<close> is the first channel byte of the pixel in line \<open>y\<close> and column
  \<open>x\<close> of the cell; a cell is not empty when one of its 64 pixels has the byte 0; its
  bitmap has the opaque value where the byte is 0 and the transparent one elsewhere.
\<close>

definition cell_pixel :: "Font \<Rightarrow> int \<times> int \<Rightarrow> int \<Rightarrow> int \<Rightarrow> u8" where
  "cell_pixel font cell y x =
     data font ! nat (((fst cell + y) * width font + (snd cell + x)) * bytes_per_color font)"

definition cell_nonempty :: "Font \<Rightarrow> int \<times> int \<Rightarrow> bool" where
  "cell_nonempty font cell =
     list_ex (\<lambda>y. list_ex (\<lambda>x. cell_pixel font cell (int y) (int x) = 0) [0..<8]) [0..<8]"

definition px32 :: "Font \<Rightarrow> int \<times> int \<Rightarrow> int \<Rightarrow> int \<Rightarrow> u32" where
  "px32 font cell y x = (if cell_pixel font cell y x = 0 then 0xff000000 else 0x00000000)"

definition cell_bitmap :: "Font \<Rightarrow> int \<times> int \<Rightarrow> u32 list" where
  "cell_bitmap font cell =
     map (\<lambda>k. if cell_pixel font cell (int (k div 8)) (int (k mod 8)) = 0 then 0xff000000 else 0x00000000)
       [0..<64]"

definition cell_in_font :: "Font \<Rightarrow> int \<times> int \<Rightarrow> bool" where
  "cell_in_font font cell =
     (0 \<le> fst cell \<and> fst cell + 8 \<le> height font \<and> 0 \<le> snd cell \<and> snd cell + 8 \<le> width font)"

text \<open>
  The cells of the grid in row-major order: the rows from top to bottom, and in each row
  the columns from left to right. The non-empty cells are listed in the same order.
\<close>

definition grid_cells :: "Font \<Rightarrow> (int \<times> int) list" where
  "grid_cells font =
     concat (map (\<lambda>r. map (\<lambda>c. (8 * int r, 8 * int c)) [0..<nat ((width font + 7) div 8)])
               [0..<nat ((height font + 7) div 8)])"

definition nonempty_cells :: "Font \<Rightarrow> (int \<times> int) list" where
  "nonempty_cells font = filter (cell_nonempty font) (grid_cells font)"

text \<open>
  The characters that remain in a view: the slices and codes that repeated calls of
  \<^verbatim>\<open>utf8_chop_char\<close> deliver until the size of the view is used up.
\<close>

function chars_of :: "u8 list \<Rightarrow> StringView \<Rightarrow> error + (StringView \<times> u32) list" where
  "chars_of mem string =
     (if sv_size string > 0 then
        bind_err (utf8_chop_char mem string) (\<lambda>(result, string', c).
          bind_err (chars_of mem string') (\<lambda>rest. Inr ((result, c) # rest)))
      else Inr [])"
  by pat_completeness auto
termination
  by (relation "measure (\<lambda>(mem, string). nat (sv_size string))")
     (auto dest: utf8_chop_char_size)

declare chars_of.simps [simp del]

definition not_space :: "StringView \<times> u32 \<Rightarrow> bool" where
  "not_space x = (\<not> char_is_space (snd x))"

text \<open>
  A cursor into the legend that the validator accepts from there on, that decodes to
  \<open>xs\<close>, and that lies inside the buffer with the end of the buffer as its end.
\<close>

definition cursor_ok :: "u8 list \<Rightarrow> StringView \<Rightarrow> bool" where
  "cursor_ok mem string =
     (0 \<le> sv_data string \<and> 0 \<le> sv_size string
      \<and> sv_data string + sv_size string = int (length mem))"

definition legend_rest :: "u8 list \<Rightarrow> StringView \<Rightarrow> (StringView \<times> u32) list \<Rightarrow> bool" where
  "legend_rest mem string xs =
     (utf8_validate mem string = Inr True \<and> chars_of mem string = Inr xs \<and> cursor_ok mem string)"

text \<open>
  The scan over a list of cells, the glyph made of a decoded character and a cell, and
  the requests that the glyphs of a list of characters make to the arena.
\<close>

fun run_cells :: "u8 list \<Rightarrow> Font \<Rightarrow> int \<Rightarrow> (int \<times> int) list \<Rightarrow> scan_state \<Rightarrow> error + scan_state" where
  "run_cells chars font n [] st = Inr st"
| "run_cells chars font n (cell # cells) st =
     bind_err (cell_step chars font n (fst cell) (snd cell) st) (run_cells chars font n cells)"

definition glyph_of :: "u8 list \<Rightarrow> Font \<Rightarrow> StringView \<times> u32 \<Rightarrow> int \<times> int \<Rightarrow> Glyph" where
  "glyph_of chars font x cell =
     \<lparr>char_code = snd x, char_data = view_bytes chars (fst x) @ [0], bitmap = cell_bitmap font cell\<rparr>"

definition glyph_requests :: "(StringView \<times> u32) list \<Rightarrow> (int \<times> int) list" where
  "glyph_requests xs =
     concat (map (\<lambda>x. [(sv_size (fst x) + 1, 1), (GLYPH_WIDTH * GLYPH_HEIGHT * sizeof_u32, 4)]) xs)"

definition scan_result ::
  "u8 list \<Rightarrow> Font \<Rightarrow> (StringView \<times> u32) list \<Rightarrow> (int \<times> int) list \<Rightarrow> Glyph list
     \<Rightarrow> Arena \<Rightarrow> error + Glyph list" where
  "scan_result chars font ns ne done a =
     bind_err (alloc_seq a (glyph_requests (take (length ne) ns)))
       (\<lambda>a'. if length ne \<le> length ns
              then Inr (done @ map2 (glyph_of chars font) ns ne)
              else Inl (Exit1 more_glyphs_message))"

definition finish_scan :: "int \<Rightarrow> Glyph list \<Rightarrow> error + Glyph list" where
  "finish_scan n gs = (if int (length gs) \<noteq> n then Inl (Exit1 more_chars_message) else Inr gs)"

text \<open>
  A legend given by its code points: its bytes, the slices of the characters in them,
  the code points that are not whitespace, and the glyph record of a code point and a
  cell.
\<close>

definition utf8_encode_all :: "u32 list \<Rightarrow> u8 list" where
  "utf8_encode_all cs = concat (map utf8_encode cs)"

fun encoded_slices :: "int \<Rightarrow> u32 list \<Rightarrow> (StringView \<times> u32) list" where
  "encoded_slices d [] = []"
| "encoded_slices d (c # cs) =
     (\<lparr>sv_data = d, sv_size = int (length (utf8_encode c))\<rparr>, c)
       # encoded_slices (d + int (length (utf8_encode c))) cs"

definition non_space_chars :: "u32 list \<Rightarrow> u32 list" where
  "non_space_chars cs = filter (\<lambda>c. \<not> char_is_space c) cs"

definition legend_glyph :: "Font \<Rightarrow> u32 \<Rightarrow> int \<times> int \<Rightarrow> Glyph" where
  "legend_glyph font c cell =
     \<lparr>char_code = c, char_data = utf8_encode c @ [0], bitmap = cell_bitmap font cell\<rparr>"

text \<open>
  The state in which \<^verbatim>\<open>main\<close> enters the loops over the grid, and what holds of the
  state whenever the body of the loops is entered for a legend with \<open>n\<close> characters
  that are not whitespace: the cursor is a cursor of the validated legend, and the
  characters still ahead of it are as many as there are free entries in the output
  array.
\<close>

definition scan_start :: "u8 list \<Rightarrow> Arena \<Rightarrow> scan_state" where
  "scan_start chars a = \<lparr>st_glyphs = [], st_font_char_iter = view_of chars, st_arena = a\<rparr>"

definition scan_inv :: "u8 list \<Rightarrow> int \<Rightarrow> scan_state \<Rightarrow> bool" where
  "scan_inv chars n st =
     (\<exists>xs. legend_rest chars (st_font_char_iter st) xs
        \<and> int (length (st_glyphs st)) + int (length (filter not_space xs)) = n)"

text \<open>Inputs for the examples: two memories and two fonts of one byte per pixel.\<close>

definition address_bytes :: memory where
  "address_bytes a = word_of_int a"

definition zero_memory :: memory where
  "zero_memory a = 0"

definition ink_font :: Font where
  "ink_font = \<lparr>width = 8, height = 8, bytes_per_color = 1, data = replicate 64 0\<rparr>"

definition three_cell_font :: Font where
  "three_cell_font =
     \<lparr>width = 24, height = 8, bytes_per_color = 1,
      data = concat (replicate 8 ([0] @ replicate 22 0xFF @ [0]))\<rparr>"

section \<open>Properties of the arena allocator\<close>

lemma arena_padding_bounds:
  assumes "0 < alignment" "alignment < 2 ^ 63"
  shows "0 \<le> arena_padding arena alignment \<and> arena_padding arena alignment < alignment"
proof -
  let ?m = "(word_of_int alignment :: uptr) - 1"
  let ?x = "NOT (word_of_int (begin_ptr arena) :: uptr) + 1"
  have um: "uint ?m = alignment - 1"
    using assms by (simp add: uint_word_arith_bintrs take_bit_int_eq_self uint_word_of_int) 
  have "uint (?x AND ?m) \<le> uint ?m"
    by (simp add: word_and_le1 word_le_def[symmetric])
  then have le: "uint (?x AND ?m) \<le> alignment - 1"
    using um by simp
  have "sint (?x AND ?m) = uint (?x AND ?m)"
  proof -
    have "- (2 ^ 63) \<le> uint (?x AND ?m)" "uint (?x AND ?m) < 2 ^ 63"
      using le assms uint_ge_0 [of "?x AND ?m"] by linarith+
    then have "signed_take_bit 63 (uint (?x AND ?m)) = uint (?x AND ?m)"
      by (rule signed_take_bit_int_eq_self)
    then show ?thesis by (simp add: sint_uint)
  qed
  then show ?thesis
    using le by (simp add: arena_padding_def)
qed



lemma alloc_overflow:
  assumes "alignment_ok alignment" "alignment < 2 ^ 63" "begin_ptr arena \<le> end_ptr arena"
    "memory_remaining arena < sz"
  shows "arena_alloc_aligned arena sz alignment = Inl ArenaOverflow"
proof -
  have "0 \<le> arena_padding arena alignment"
    using arena_padding_bounds [of alignment arena] assms(1,2) by (simp add: alignment_ok_def)
  then show ?thesis
    using assms by (auto simp: arena_alloc_aligned_def memory_remaining_def Let_def)
qed

lemma arena_padding_pow2:
  assumes "k < 63"
  shows "arena_padding arena (2 ^ k) = (- begin_ptr arena) mod 2 ^ k"
proof -
  let ?w = "word_of_int (begin_ptr arena) :: uptr"
  have m: "(word_of_int (2 ^ k) :: uptr) - 1 = mask k"
    by (simp add: mask_eq_exp_minus_1)
  have n: "NOT ?w + 1 = - ?w"
    by (simp add: minus_eq_not_plus_1)
  have t: "(- ?w) AND mask k = take_bit k (- ?w)"
    by (simp add: take_bit_eq_mask)
  have u: "uint (take_bit k (- ?w)) = (- begin_ptr arena) mod 2 ^ k"
  proof -
    have "- ?w = word_of_int (- begin_ptr arena)" by simp
    then have "uint (- ?w) = take_bit 64 (- begin_ptr arena)"
      by (simp only: uint_word_of_int_eq) simp
    then have "uint (take_bit k (- ?w)) = take_bit k (take_bit 64 (- begin_ptr arena))"
      by (simp only: unsigned_take_bit_eq)
    also have "\<dots> = take_bit k (- begin_ptr arena)"
      using assms by (simp add: min_def)
    finally show ?thesis by (simp add: take_bit_eq_mod)
  qed
  have b: "(- begin_ptr arena) mod 2 ^ k < (2::int) ^ 63"
  proof -
    have "(- begin_ptr arena) mod 2 ^ k < (2::int) ^ k" by simp
    also have "(2::int) ^ k \<le> 2 ^ 63" using assms by (intro power_increasing) simp_all
    finally show ?thesis .
  qed
  have "signed_take_bit 63 ((- begin_ptr arena) mod 2 ^ k) = (- begin_ptr arena) mod 2 ^ k"
    using b by (intro signed_take_bit_int_eq_self) (simp_all add: order_trans [of _ 0])
  then have "sint (take_bit k (- ?w)) = (- begin_ptr arena) mod 2 ^ k"
    using u by (simp add: sint_uint)
  then show ?thesis
    unfolding arena_padding_def n m t .
qed

lemma arena_padding_default:
  "arena_padding arena ARENA_DEFAULT_ALIGNMENT = (- begin_ptr arena) mod 16"
  using arena_padding_pow2 [of 4 arena] by (simp add: ARENA_DEFAULT_ALIGNMENT_def)

lemma alignment_ok_default: "alignment_ok ARENA_DEFAULT_ALIGNMENT"
  by (simp add: alignment_ok_def ARENA_DEFAULT_ALIGNMENT_def)


text \<open>
  C7. A request of size 0 returns \<^verbatim>\<open>NULL\<close> for every arena, also an exhausted one, and
  every alignment that passes the assertion: the process does not abort and the arena
  record, hence its begin and end pointers, is returned as it was.
\<close>

theorem arena_alloc_aligned_zero_size:
  assumes "alignment_ok alignment"
  shows "arena_alloc_aligned arena 0 alignment = Inr (NULL, arena)"
  using assms by (simp add: arena_alloc_aligned_def)

theorem arena_alloc_aligned_zero_size_witness:
  "alignment_ok 16 \<and>
   arena_alloc_aligned \<lparr>begin_ptr = 4096, end_ptr = 4096\<rparr> 0 16
     = Inr (NULL, \<lparr>begin_ptr = 4096, end_ptr = 4096\<rparr>)"
proof -
  have a: "alignment_ok 16"
    by (simp add: alignment_ok_def)
  show ?thesis
    using a arena_alloc_aligned_zero_size [OF a, of "\<lparr>begin_ptr = 4096, end_ptr = 4096\<rparr>"]
    by simp
qed




text \<open>
  C5, as the code has it. Growing the most recent block aborts when the new size does not
  fit; and a most recent block whose address is not a multiple of 16 (here a block of
  alignment 1 at 4097) comes back at another address (4112), with memory as it was, so
  that the first byte of the block is no longer the byte \<open>0x01\<close> that was stored at 4097
  but the byte \<open>0x10\<close> stored at 4112:
\<close>

theorem arena_realloc_counterexample:
  "arena_alloc \<lparr>begin_ptr = 4096, end_ptr = 4128\<rparr> 16
        = Inr (4096, \<lparr>begin_ptr = 4112, end_ptr = 4128\<rparr>)
   \<and> arena_realloc address_bytes \<lparr>begin_ptr = 4112, end_ptr = 4128\<rparr> 4096 16 64
        = Inl ArenaOverflow
   \<and> arena_alloc_aligned \<lparr>begin_ptr = 4097, end_ptr = 8192\<rparr> 4 1
        = Inr (4097, \<lparr>begin_ptr = 4101, end_ptr = 8192\<rparr>)
   \<and> arena_realloc address_bytes \<lparr>begin_ptr = 4101, end_ptr = 8192\<rparr> 4097 4 8
        = Inr (4112, \<lparr>begin_ptr = 4120, end_ptr = 8192\<rparr>, address_bytes)
   \<and> (4112 :: ptr) \<noteq> 4097
   \<and> address_bytes 4097 = 0x01 \<and> address_bytes 4112 = 0x10"
  by (simp add: arena_realloc_def arena_alloc_def arena_alloc_aligned_def arena_padding_def
      alignment_ok_def ARENA_DEFAULT_ALIGNMENT_def NULL_def address_bytes_def)

text \<open>
  C5, amended. If a block of size \<open>old_size > 0\<close> is the most recent allocation, nothing has
  been allocated since, and its address is a multiple of 16 (as that of every block of
  \<^verbatim>\<open>arena_alloc\<close> is), then \<^verbatim>\<open>arena_realloc\<close> to a strictly larger size that fits between
  the block and the end of the arena returns the same pointer and leaves every byte of
  memory as it was; when the new size does not fit, the process aborts.
\<close>

theorem arena_realloc_in_place:
  assumes "arena_alloc_aligned arena0 old_size alignment = Inr (old_ptr, arena)"
    and "0 < old_size"
    and "old_ptr \<noteq> NULL"
    and "old_ptr mod 16 = 0"
    and "old_size < new_size"
  shows "(new_size \<le> end_ptr arena - old_ptr \<longrightarrow>
            arena_realloc mem arena old_ptr old_size new_size
              = Inr (old_ptr, arena\<lparr>begin_ptr := old_ptr + new_size\<rparr>, mem))
       \<and> (end_ptr arena - old_ptr < new_size \<longrightarrow>
            arena_realloc mem arena old_ptr old_size new_size = Inl ArenaOverflow)"
proof -
  have top: "old_ptr + old_size = begin_ptr arena"
    using assms(1,2) by (auto simp: arena_alloc_aligned_def Let_def split: if_splits)
  have pad: "arena_padding (arena\<lparr>begin_ptr := old_ptr\<rparr>) ARENA_DEFAULT_ALIGNMENT = 0"
    using assms(4) by (simp add: arena_padding_default zmod_zminus1_eq_if)
  have nz: "0 < new_size"
    using assms(2,5) by simp
  show ?thesis
    using assms(3,5) top pad nz
    by (simp add: arena_realloc_def arena_alloc_def arena_alloc_aligned_def alignment_ok_default Let_def)
qed

theorem arena_realloc_in_place_witness:
  "arena_alloc_aligned \<lparr>begin_ptr = 4096, end_ptr = 8192\<rparr> 24 16
     = Inr (4096, \<lparr>begin_ptr = 4120, end_ptr = 8192\<rparr>)
   \<and> (4096 :: ptr) \<noteq> NULL \<and> (4096 :: int) mod 16 = 0 \<and> (0 :: int) < 24 \<and> (24 :: int) < 48
   \<and> arena_realloc address_bytes \<lparr>begin_ptr = 4120, end_ptr = 8192\<rparr> 4096 24 48
       = Inr (4096, \<lparr>begin_ptr = 4144, end_ptr = 8192\<rparr>, address_bytes)
   \<and> arena_realloc address_bytes \<lparr>begin_ptr = 4120, end_ptr = 8192\<rparr> 4096 24 4097
       = Inl ArenaOverflow"
proof -
  have a: "arena_alloc_aligned \<lparr>begin_ptr = 4096, end_ptr = 8192\<rparr> 24 16
     = Inr (4096, \<lparr>begin_ptr = 4120, end_ptr = 8192\<rparr>)"
    by (simp add: arena_alloc_aligned_def arena_padding_def alignment_ok_def)
  have n: "(4096 :: ptr) \<noteq> NULL" by (simp add: NULL_def)
  have m: "(4096 :: int) mod 16 = 0" by simp
  have p: "(0 :: int) < 24" by simp
  have l1: "(24 :: int) < 48" by simp
  have l2: "(24 :: int) < 4097" by simp
  show ?thesis
    using arena_realloc_in_place [OF a p n m l1, of address_bytes]
      arena_realloc_in_place [OF a p n m l2, of address_bytes] a n
    by simp
qed

section \<open>Properties of the UTF-8 decoder\<close>

lemma table_blocks:
  "utf8_char_size_table =
     replicate 128 1 @ replicate 66 0 @ replicate 30 2 @ replicate 16 3 @ replicate 5 4 @ replicate 11 0"
  unfolding utf8_char_size_table_def by code_simp

lemma utf8_char_size_eq: "utf8_char_size b = char_size_spec (unat b)"
proof -
  have "unat b < 256" using unsigned_less [of b] by simp
  then show ?thesis
    unfolding utf8_char_size_def table_blocks char_size_spec_def
    by (auto simp: nth_append)
qed

lemma lt_bits: "(c :: u32) < 2 ^ k \<Longrightarrow> k \<le> n \<Longrightarrow> \<not> bit c n"
  by (metis bit_take_bit_iff less_mask_eq not_less take_bit_eq_mask)

lemma nat_lt_32_cases:
  assumes "j < (32::nat)"
  shows "j = 0 \<or> j = 1 \<or> j = 2 \<or> j = 3 \<or> j = 4 \<or> j = 5 \<or> j = 6 \<or> j = 7
       \<or> j = 8 \<or> j = 9 \<or> j = 10 \<or> j = 11 \<or> j = 12 \<or> j = 13 \<or> j = 14 \<or> j = 15
       \<or> j = 16 \<or> j = 17 \<or> j = 18 \<or> j = 19 \<or> j = 20 \<or> j = 21 \<or> j = 22 \<or> j = 23
       \<or> j = 24 \<or> j = 25 \<or> j = 26 \<or> j = 27 \<or> j = 28 \<or> j = 29 \<or> j = 30 \<or> j = 31"
  using assms by arith

lemma nat_lt_8_cases:
  assumes "j < (8::nat)"
  shows "j = 0 \<or> j = 1 \<or> j = 2 \<or> j = 3 \<or> j = 4 \<or> j = 5 \<or> j = 6 \<or> j = 7"
  using assms by arith

lemma dec1:
  assumes "(c :: u32) < 0x80"
  shows "(ucast (ucast c :: u8) :: u32) = c"
proof (rule bit_word_eqI)
  fix n :: nat
  assume "n < LENGTH(32)"
  then have n: "n < 32" by simp
  have hi: "\<And>n. 7 \<le> n \<Longrightarrow> \<not> bit c n"
    using lt_bits [of c 7] assms by simp
  show "bit (ucast (ucast c :: u8) :: u32) n = bit c n"
    using nat_lt_32_cases [OF n] hi
    by (elim disjE) (simp_all add: bit_simps)
qed

lemma dec2:
  assumes "(c :: u32) < 0x800"
  shows "push_bit 6 (ucast ((0xC0 OR ucast (drop_bit 6 c) :: u8) AND 0x1f) :: u32) OR
         ucast ((0x80 OR ucast (c AND 0x3f) :: u8) AND 0x3f) = c"
    (is "?d = c")
proof (rule bit_word_eqI)
  fix n :: nat
  assume "n < LENGTH(32)"
  then have n: "n < 32" by simp
  have hi: "\<And>n. 11 \<le> n \<Longrightarrow> \<not> bit c n"
    using lt_bits [of c 11] assms by simp
  show "bit ?d n = bit c n"
    using nat_lt_32_cases [OF n] hi
    by (elim disjE) (simp_all add: bit_simps)
qed

lemma dec3:
  assumes "(c :: u32) < 0x10000"
  shows "push_bit 12 (ucast ((0xE0 OR ucast (drop_bit 12 c) :: u8) AND 0x0f) :: u32) OR
         push_bit 6 (ucast ((0x80 OR ucast (drop_bit 6 c AND 0x3f) :: u8) AND 0x3f)) OR
         ucast ((0x80 OR ucast (c AND 0x3f) :: u8) AND 0x3f) = c"
    (is "?d = c")
proof (rule bit_word_eqI)
  fix n :: nat
  assume "n < LENGTH(32)"
  then have n: "n < 32" by simp
  have hi: "\<And>n. 16 \<le> n \<Longrightarrow> \<not> bit c n"
    using lt_bits [of c 16] assms by simp
  show "bit ?d n = bit c n"
    using nat_lt_32_cases [OF n] hi
    by (elim disjE) (simp_all add: bit_simps)
qed

lemma dec4:
  assumes "(c :: u32) < 0x200000"
  shows "push_bit 18 (ucast ((0xF0 OR ucast (drop_bit 18 c) :: u8) AND 0x07) :: u32) OR
         push_bit 12 (ucast ((0x80 OR ucast (drop_bit 12 c AND 0x3f) :: u8) AND 0x3f)) OR
         push_bit 6 (ucast ((0x80 OR ucast (drop_bit 6 c AND 0x3f) :: u8) AND 0x3f)) OR
         ucast ((0x80 OR ucast (c AND 0x3f) :: u8) AND 0x3f) = c"
    (is "?d = c")
proof (rule bit_word_eqI)
  fix n :: nat
  assume "n < LENGTH(32)"
  then have n: "n < 32" by simp
  have hi: "\<And>n. 21 \<le> n \<Longrightarrow> \<not> bit c n"
    using lt_bits [of c 21] assms by simp
  show "bit ?d n = bit c n"
    using nat_lt_32_cases [OF n] hi
    by (elim disjE) (simp_all add: bit_simps)
qed

lemma lt_bits8: "(x :: u8) < 2 ^ k \<Longrightarrow> k \<le> n \<Longrightarrow> \<not> bit x n"
  by (metis bit_take_bit_iff less_mask_eq not_less take_bit_eq_mask)

lemma unat_lead:
  fixes c :: u32
  shows "unat (ucast (drop_bit k c) :: u8) = (unat c div 2 ^ k) mod 256"
proof -
  have "unat (ucast (drop_bit k c) :: u8) = take_bit 8 (drop_bit k (unat c))"
    by (simp only: unsigned_ucast_eq unat_drop_bit_eq) simp
  also have "\<dots> = (unat c div 2 ^ k) mod 256"
    by (simp only: drop_bit_eq_div take_bit_eq_mod) simp
  finally show ?thesis .
qed

lemma or_add_C0:
  assumes "unat (x :: u8) < 32"
  shows "unat (0xC0 OR x) = 192 + unat x"
proof -
  have "x < 2 ^ 5" using assms by (simp add: word_less_nat_alt)
  then have hi: "\<And>n. 5 \<le> n \<Longrightarrow> \<not> bit x n"
    using lt_bits8 [of x 5] by simp
  have "0xC0 AND x = 0"
  proof (rule bit_word_eqI)
    fix n :: nat
    assume "n < LENGTH(8)"
    then have n: "n < 8" by simp
    show "bit (0xC0 AND x) n = bit (0 :: u8) n"
      using nat_lt_8_cases [OF n] hi by (elim disjE) (simp_all add: bit_simps)
  qed
  then have "0xC0 OR x = 0xC0 + x"
    by (simp add: disjunctive_add_eq_or)
  then show ?thesis
    using assms by (simp add: unat_word_ariths)
qed

lemma or_add_E0:
  assumes "unat (x :: u8) < 16"
  shows "unat (0xE0 OR x) = 224 + unat x"
proof -
  have "x < 2 ^ 4" using assms by (simp add: word_less_nat_alt)
  then have hi: "\<And>n. 4 \<le> n \<Longrightarrow> \<not> bit x n"
    using lt_bits8 [of x 4] by simp
  have "0xE0 AND x = 0"
  proof (rule bit_word_eqI)
    fix n :: nat
    assume "n < LENGTH(8)"
    then have n: "n < 8" by simp
    show "bit (0xE0 AND x) n = bit (0 :: u8) n"
      using nat_lt_8_cases [OF n] hi by (elim disjE) (simp_all add: bit_simps)
  qed
  then have "0xE0 OR x = 0xE0 + x"
    by (simp add: disjunctive_add_eq_or)
  then show ?thesis
    using assms by (simp add: unat_word_ariths)
qed

lemma or_add_F0:
  assumes "unat (x :: u8) < 8"
  shows "unat (0xF0 OR x) = 240 + unat x"
proof -
  have "x < 2 ^ 3" using assms by (simp add: word_less_nat_alt)
  then have hi: "\<And>n. 3 \<le> n \<Longrightarrow> \<not> bit x n"
    using lt_bits8 [of x 3] by simp
  have "0xF0 AND x = 0"
  proof (rule bit_word_eqI)
    fix n :: nat
    assume "n < LENGTH(8)"
    then have n: "n < 8" by simp
    show "bit (0xF0 AND x) n = bit (0 :: u8) n"
      using nat_lt_8_cases [OF n] hi by (elim disjE) (simp_all add: bit_simps)
  qed
  then have "0xF0 OR x = 0xF0 + x"
    by (simp add: disjunctive_add_eq_or)
  then show ?thesis
    using assms by (simp add: unat_word_ariths)
qed

lemma lead1:
  assumes "(c :: u32) < 0x80"
  shows "utf8_char_size (ucast c) = 1"
proof -
  have "unat c < 128" using assms by (simp add: word_less_nat_alt)
  then have "unat (ucast c :: u8) < 128"
    by (simp add: unsigned_ucast_eq take_bit_eq_mod)
  then show ?thesis by (simp add: utf8_char_size_eq char_size_spec_def)
qed

lemma lead2:
  assumes "\<not> (c :: u32) < 0x80" "c < 0x800"
  shows "utf8_char_size (0xC0 OR ucast (drop_bit 6 c)) = 2"
proof -
  have c: "128 \<le> unat c" "unat c < 2048"
    using assms by (simp_all add: word_less_nat_alt)
  have x: "unat (ucast (drop_bit 6 c) :: u8) = unat c div 64"
    using c unat_lead [of 6 c] by simp
  have "2 \<le> unat c div 64" "unat c div 64 < 32"
    using c by simp_all
  then show ?thesis
    using x by (simp add: utf8_char_size_eq or_add_C0 char_size_spec_def)
qed

lemma lead3:
  assumes "\<not> (c :: u32) < 0x800" "c < 0x10000"
  shows "utf8_char_size (0xE0 OR ucast (drop_bit 12 c)) = 3"
proof -
  have c: "unat c < 65536"
    using assms by (simp_all add: word_less_nat_alt)
  have x: "unat (ucast (drop_bit 12 c) :: u8) = unat c div 4096"
    using c unat_lead [of 12 c] by simp
  have "unat c div 4096 < 16"
    using c by simp_all
  then show ?thesis
    using x by (simp add: utf8_char_size_eq or_add_E0 char_size_spec_def)
qed

lemma lead4:
  assumes "\<not> (c :: u32) < 0x10000" "c \<le> 0x10FFFF"
  shows "utf8_char_size (0xF0 OR ucast (drop_bit 18 c)) = 4"
proof -
  have c: "unat c < 1114112"
    using assms by (simp_all add: word_le_nat_alt)
  have x: "unat (ucast (drop_bit 18 c) :: u8) = unat c div 262144"
    using c unat_lead [of 18 c] by simp
  have "unat c div 262144 < 5"
    using c by simp_all
  then show ?thesis
    using x by (simp add: utf8_char_size_eq or_add_F0 char_size_spec_def)
qed

lemma read_view:
  assumes "0 \<le> sv_data s" "take n (view_bytes mem s) = bs" "length bs = n" "i < n"
  shows "read_u8 mem (sv_data s + int i) = Inr (bs ! i)"
proof -
  let ?d = "nat (sv_data s)"
  have len: "n \<le> length (view_bytes mem s)"
    using assms(2,3) by (metis length_take min.cobounded1 min.commute)
  then have i: "i < length (view_bytes mem s)" using assms(4) by simp
  then have i1: "i < nat (sv_size s)" and i2: "i < length mem - ?d"
    by (simp_all add: view_bytes_def)
  have "bs ! i = view_bytes mem s ! i"
    using assms(2,4) by (metis nth_take)
  also have "\<dots> = mem ! (?d + i)"
    using i1 i2 by (simp add: view_bytes_def)
  finally have "bs ! i = mem ! (?d + i)" .
  moreover have "nat (sv_data s + int i) = ?d + i"
    using assms(1) by (simp add: nat_add_distrib)
  moreover have "sv_data s + int i < int (length mem)"
    using i2 assms(1) by linarith
  ultimately show ?thesis
    using assms(1) by (simp add: read_u8_def)
qed

lemma view_take:
  assumes "0 \<le> sv_data s" "take n (view_bytes mem s) = bs" "length bs = n"
  shows "view_bytes mem \<lparr>sv_data = sv_data s, sv_size = int n\<rparr> = bs"
proof -
  have "n \<le> length (view_bytes mem s)"
    using assms(2,3) by (metis length_take min.cobounded1 min.commute)
  then have "n \<le> nat (sv_size s)" by (simp add: view_bytes_def)
  then have "take n (take (nat (sv_size s)) (drop (nat (sv_data s)) mem)) = take n (drop (nat (sv_data s)) mem)"
    by (simp add: min_def)
  then show ?thesis
    using assms(2) by (simp add: view_bytes_def)
qed

lemma is_scalar_max: "is_scalar c \<Longrightarrow> c \<le> 0x10FFFF"
  by (auto simp: is_scalar_def word_le_nat_alt)

lemma utf8_chop_char_encoded:
  assumes "is_scalar c"
    and "0 \<le> sv_data string"
    and "take (length (utf8_encode c)) (view_bytes mem string) = utf8_encode c"
  shows "utf8_chop_char mem string =
           Inr (\<lparr>sv_data = sv_data string, sv_size = int (length (utf8_encode c))\<rparr>,
                string\<lparr>sv_data := sv_data string + int (length (utf8_encode c)),
                       sv_size := sv_size string - int (length (utf8_encode c))\<rparr>,
                c)
         \<and> view_bytes mem \<lparr>sv_data = sv_data string, sv_size = int (length (utf8_encode c))\<rparr>
             = utf8_encode c"
proof -
  note rd = read_view [OF assms(2) assms(3) refl]
  have slice: "view_bytes mem \<lparr>sv_data = sv_data string, sv_size = int (length (utf8_encode c))\<rparr>
             = utf8_encode c"
    by (rule view_take [OF assms(2) assms(3) refl])
  have mx: "c \<le> 0x10FFFF" by (rule is_scalar_max [OF assms(1)])
  consider (one) "c < 0x80"
    | (two) "\<not> c < 0x80" "c < 0x800"
    | (three) "\<not> c < 0x800" "c < 0x10000"
    | (four) "\<not> c < 0x10000"
    by blast
  then have "utf8_chop_char mem string =
           Inr (\<lparr>sv_data = sv_data string, sv_size = int (length (utf8_encode c))\<rparr>,
                string\<lparr>sv_data := sv_data string + int (length (utf8_encode c)),
                       sv_size := sv_size string - int (length (utf8_encode c))\<rparr>,
                c)"
  proof cases
    case one
    have e: "utf8_encode c = [ucast c]"
      using one by (simp add: utf8_encode_def)
    have r0: "read_u8 mem (sv_data string) = Inr (ucast c)"
      using rd [of 0] by (simp add: e)
    show ?thesis
      unfolding utf8_chop_char_def
      by (simp add: r0 e lead1 [OF one] dec1 [OF one])
  next
    case two
    have e: "utf8_encode c = [0xC0 OR ucast (drop_bit 6 c), 0x80 OR ucast (c AND 0x3f)]"
      using two by (simp add: utf8_encode_def)
    have r0: "read_u8 mem (sv_data string) = Inr (0xC0 OR ucast (drop_bit 6 c))"
      using rd [of 0] by (simp add: e)
    have r1: "read_u8 mem (sv_data string + 1) = Inr (0x80 OR ucast (c AND 0x3f))"
      using rd [of 1] by (simp add: e)
    show ?thesis
      unfolding utf8_chop_char_def
      by (simp add: r0 r1 e lead2 [OF two] dec2 [OF two(2)])
  next
    case three
    have e: "utf8_encode c = [0xE0 OR ucast (drop_bit 12 c),
         0x80 OR ucast (drop_bit 6 c AND 0x3f),
         0x80 OR ucast (c AND 0x3f)]"
      using three by (simp add: utf8_encode_def word_less_nat_alt)
    have r0: "read_u8 mem (sv_data string) = Inr (0xE0 OR ucast (drop_bit 12 c))"
      using rd [of 0] by (simp add: e)
    have r1: "read_u8 mem (sv_data string + 1) = Inr (0x80 OR ucast (drop_bit 6 c AND 0x3f))"
      using rd [of 1] by (simp add: e)
    have r2: "read_u8 mem (sv_data string + 2) = Inr (0x80 OR ucast (c AND 0x3f))"
      using rd [of 2] by (simp add: e)
    show ?thesis
      unfolding utf8_chop_char_def
      by (simp add: r0 r1 r2 e lead3 [OF three] dec3 [OF three(2)])
  next
    case four
    have lt: "c < 0x200000"
      using mx by (simp add: word_le_nat_alt word_less_nat_alt)
    have e: "utf8_encode c = [0xF0 OR ucast (drop_bit 18 c),
         0x80 OR ucast (drop_bit 12 c AND 0x3f),
         0x80 OR ucast (drop_bit 6 c AND 0x3f),
         0x80 OR ucast (c AND 0x3f)]"
      using four by (simp add: utf8_encode_def word_less_nat_alt)
    have r0: "read_u8 mem (sv_data string) = Inr (0xF0 OR ucast (drop_bit 18 c))"
      using rd [of 0] by (simp add: e)
    have r1: "read_u8 mem (sv_data string + 1) = Inr (0x80 OR ucast (drop_bit 12 c AND 0x3f))"
      using rd [of 1] by (simp add: e)
    have r2: "read_u8 mem (sv_data string + 2) = Inr (0x80 OR ucast (drop_bit 6 c AND 0x3f))"
      using rd [of 2] by (simp add: e)
    have r3: "read_u8 mem (sv_data string + 3) = Inr (0x80 OR ucast (c AND 0x3f))"
      using rd [of 3] by (simp add: e)
    show ?thesis
      unfolding utf8_chop_char_def
      by (simp add: r0 r1 r2 r3 e lead4 [OF four mx] dec4 [OF lt])
  qed
  then show ?thesis using slice by simp
qed

text \<open>
  C3. For every Unicode scalar value \<open>c\<close> and every span that begins with the canonical
  UTF-8 encoding of \<open>c\<close>, \<^verbatim>\<open>utf8_chop_char\<close> decodes \<open>c\<close>, returns as consumed slice
  exactly the bytes of the encoding, and advances the cursor of the span by the length of
  the encoding (the remaining size shrinks by as much).
\<close>

theorem utf8_chop_char_roundtrip:
  assumes "is_scalar c"
    and "0 \<le> sv_data string"
    and "take (length (utf8_encode c)) (view_bytes mem string) = utf8_encode c"
  shows "utf8_chop_char mem string =
           Inr (\<lparr>sv_data = sv_data string, sv_size = int (length (utf8_encode c))\<rparr>,
                string\<lparr>sv_data := sv_data string + int (length (utf8_encode c)),
                       sv_size := sv_size string - int (length (utf8_encode c))\<rparr>,
                c)
         \<and> view_bytes mem \<lparr>sv_data = sv_data string, sv_size = int (length (utf8_encode c))\<rparr>
             = utf8_encode c"
  using assms by (rule utf8_chop_char_encoded)

theorem utf8_chop_char_roundtrip_witness:
  "is_scalar 0x20AC
   \<and> (0 :: int) \<le> sv_data \<lparr>sv_data = 1, sv_size = 4\<rparr>
   \<and> take (length (utf8_encode 0x20AC))
         (view_bytes [0x41, 0xE2, 0x82, 0xAC, 0x42] \<lparr>sv_data = 1, sv_size = 4\<rparr>)
       = utf8_encode 0x20AC
   \<and> utf8_encode 0x20AC = [0xE2, 0x82, 0xAC]
   \<and> utf8_chop_char [0x41, 0xE2, 0x82, 0xAC, 0x42] \<lparr>sv_data = 1, sv_size = 4\<rparr>
       = Inr (\<lparr>sv_data = 1, sv_size = 3\<rparr>, \<lparr>sv_data = 4, sv_size = 1\<rparr>, 0x20AC)"
proof -
  have e: "utf8_encode 0x20AC = [0xE2, 0x82, 0xAC]"
    by (simp add: utf8_encode_def)
  have s: "is_scalar 0x20AC"
    by (simp add: is_scalar_def)
  have d: "(0 :: int) \<le> sv_data \<lparr>sv_data = 1, sv_size = 4\<rparr>"
    by simp
  have t: "take (length (utf8_encode 0x20AC))
         (view_bytes [0x41, 0xE2, 0x82, 0xAC, 0x42] \<lparr>sv_data = 1, sv_size = 4\<rparr>)
       = utf8_encode 0x20AC"
    by (simp add: e view_bytes_def)
  show ?thesis
    using utf8_chop_char_roundtrip [OF s d t] s t e by simp
qed

text \<open>
  C4, evaluated on the code. The validator never looks at the form of the bytes after a
  leading byte, so it accepts byte sequences that contain a lone continuation byte
  (\<open>E1 41 80\<close>: the byte \<open>80\<close> follows the ASCII byte \<open>41\<close>), the overlong encoding
  \<open>E0 80 80\<close> (inside \<open>F1 E0 80 80\<close>), or a leading byte whose continuation is missing
  (\<open>C2 41\<close>).
\<close>

theorem utf8_validate_accepts_ill_formed:
  "utf8_validate [0xE1, 0x41, 0x80] \<lparr>sv_data = 0, sv_size = 3\<rparr> = Inr True
   \<and> utf8_validate [0xF1, 0xE0, 0x80, 0x80] \<lparr>sv_data = 0, sv_size = 4\<rparr> = Inr True
   \<and> utf8_validate [0xC2, 0x41] \<lparr>sv_data = 0, sv_size = 2\<rparr> = Inr True"
  by code_simp

section \<open>Properties of the whitespace test\<close>

text \<open>
  C8. \<open>char_is_space\<close> holds for exactly the five code points U+0020, U+0009, U+000A,
  U+000C and U+000D. There are five of them, and neither the vertical tab U+000B nor the
  Unicode spaces U+0085, U+00A0, U+2028 and U+3000 are among them.
\<close>

theorem char_is_space_exactly_five:
  "{c. char_is_space c} = {0x20, 0x09, 0x0a, 0x0c, 0x0d}
   \<and> card {c. char_is_space c} = 5
   \<and> \<not> char_is_space 0x0b
   \<and> \<not> char_is_space 0x85 \<and> \<not> char_is_space 0xa0
   \<and> \<not> char_is_space 0x2028 \<and> \<not> char_is_space 0x3000"
proof -
  have s: "{c. char_is_space c} = {0x20, 0x09, 0x0a, 0x0c, 0x0d}"
    by (auto simp: char_is_space_def)
  have c: "card {0x20, 0x09, 0x0a, 0x0c, 0x0d :: u32} = 5"
    by simp
  show ?thesis
    unfolding s using c by (simp add: char_is_space_def)
qed
section \<open>Properties of the glyph extraction\<close>

subsection \<open>The loops over the pixels of a cell\<close>

lemma pixel_index:
  assumes "font_ok font" "cell_in_font font cell" "0 \<le> y" "y < 8" "0 \<le> x" "x < 8"
  shows "0 \<le> ((fst cell + y) * width font + (snd cell + x)) * bytes_per_color font"
    and "((fst cell + y) * width font + (snd cell + x)) * bytes_per_color font < int (length (data font))"
proof -
  let ?w = "width font" and ?h = "height font" and ?b = "bytes_per_color font"
  let ?p = "(fst cell + y) * ?w + (snd cell + x)"
  have w: "0 \<le> ?w" and b: "0 < ?b" and len: "int (length (data font)) = ?w * ?h * ?b"
    using assms(1) by (simp_all add: font_ok_def)
  have r: "0 \<le> fst cell + y" "fst cell + y + 1 \<le> ?h" and c: "0 \<le> snd cell + x" "snd cell + x < ?w"
    using assms(2-6) by (simp_all add: cell_in_font_def)
  have p0: "0 \<le> ?p" using r c w by simp
  have "?p < (fst cell + y) * ?w + ?w" using c by simp
  also have "\<dots> = (fst cell + y + 1) * ?w" by (simp add: algebra_simps)
  also have "\<dots> \<le> ?h * ?w" using r w by (intro mult_right_mono) simp_all
  finally have p1: "?p < ?h * ?w" .
  show "0 \<le> ?p * ?b" using p0 b by simp
  have "?p + 1 \<le> ?h * ?w" using p1 by simp
  then have "(?p + 1) * ?b \<le> ?h * ?w * ?b" using b by (intro mult_right_mono) simp_all
  then have "?p * ?b + ?b \<le> ?w * ?h * ?b" by (simp add: algebra_simps)
  then have "?p * ?b < ?w * ?h * ?b" using b by linarith
  then show "?p * ?b < int (length (data font))" using len by simp
qed

lemma read_pixel:
  assumes "font_ok font" "cell_in_font font cell" "0 \<le> y" "y < 8" "0 \<le> x" "x < 8"
  shows "read_u8 (data font)
           (((fst cell * width font + snd cell) * bytes_per_color font
               + y * (width font * bytes_per_color font)) + x * bytes_per_color font)
         = Inr (cell_pixel font cell y x)"
proof -
  have e: "((fst cell * width font + snd cell) * bytes_per_color font
               + y * (width font * bytes_per_color font)) + x * bytes_per_color font
        = ((fst cell + y) * width font + (snd cell + x)) * bytes_per_color font"
    by (simp add: algebra_simps)
  show ?thesis
    unfolding e using pixel_index [OF assms] by (simp add: read_u8_def cell_pixel_def)
qed

lemma glyph_is_empty_x_spec:
  assumes "font_ok font" "cell_in_font font cell" "0 \<le> y" "y < 8" "0 \<le> glyph_x"
  shows "glyph_is_empty_x font
           ((fst cell * width font + snd cell) * bytes_per_color font
               + y * (width font * bytes_per_color font)) flag glyph_x
         = Inr (flag \<and> (\<forall>x. glyph_x \<le> x \<and> x < 8 \<longrightarrow> cell_pixel font cell y x \<noteq> 0))"
  using assms(5)
proof (induction "nat (8 - glyph_x)" arbitrary: glyph_x flag)
  case 0
  then have "8 \<le> glyph_x" by simp
  then show ?case by (subst glyph_is_empty_x.simps) (auto simp: GLYPH_WIDTH_def)
next
  case (Suc n)
  then have lt: "glyph_x < 8" and n: "n = nat (8 - (glyph_x + 1))" by simp_all
  note rd = read_pixel [OF assms(1-4) Suc.prems lt]
  have ih: "\<And>f. glyph_is_empty_x font
           ((fst cell * width font + snd cell) * bytes_per_color font
               + y * (width font * bytes_per_color font)) f (glyph_x + 1)
         = Inr (f \<and> (\<forall>x. glyph_x + 1 \<le> x \<and> x < 8 \<longrightarrow> cell_pixel font cell y x \<noteq> 0))"
    using Suc.hyps(1) [OF n] Suc.prems by simp
  have split: "\<And>P. (\<forall>x. glyph_x \<le> x \<and> x < 8 \<longrightarrow> P x)
                  = (P glyph_x \<and> (\<forall>x. glyph_x + 1 \<le> x \<and> x < 8 \<longrightarrow> P x))"
    using lt by (metis add1_zle_eq order_le_less order_refl)
  show ?case
  proof (cases flag)
    case False
    then show ?thesis by (subst glyph_is_empty_x.simps) simp
  next
    case True
    show ?thesis
      apply (subst glyph_is_empty_x.simps)
      apply (simp only: True lt GLYPH_WIDTH_def rd bind_err_simps ih split [of "\<lambda>x. cell_pixel font cell y x \<noteq> 0"])
      apply simp
      done
  qed
qed

lemma glyph_is_empty_y_spec:
  assumes "font_ok font" "cell_in_font font cell" "0 \<le> glyph_y"
  shows "glyph_is_empty_y font
           ((fst cell * width font + snd cell) * bytes_per_color font
               + glyph_y * (width font * bytes_per_color font)) flag glyph_y
         = Inr (flag \<and> (\<forall>y x. glyph_y \<le> y \<and> y < 8 \<and> 0 \<le> x \<and> x < 8
                              \<longrightarrow> cell_pixel font cell y x \<noteq> 0))"
  using assms(3)
proof (induction "nat (8 - glyph_y)" arbitrary: glyph_y flag)
  case 0
  then have "8 \<le> glyph_y" by simp
  then show ?case by (subst glyph_is_empty_y.simps) (auto simp: GLYPH_HEIGHT_def)
next
  case (Suc n)
  then have lt: "glyph_y < 8" and n: "n = nat (8 - (glyph_y + 1))" by simp_all
  note row = glyph_is_empty_x_spec [OF assms(1,2) Suc.prems lt, of 0]
  have nxt: "(fst cell * width font + snd cell) * bytes_per_color font
               + glyph_y * (width font * bytes_per_color font) + width font * bytes_per_color font
           = (fst cell * width font + snd cell) * bytes_per_color font
               + (glyph_y + 1) * (width font * bytes_per_color font)"
    by (simp add: algebra_simps)
  have ih: "\<And>f. glyph_is_empty_y font
           ((fst cell * width font + snd cell) * bytes_per_color font
               + (glyph_y + 1) * (width font * bytes_per_color font)) f (glyph_y + 1)
         = Inr (f \<and> (\<forall>y x. glyph_y + 1 \<le> y \<and> y < 8 \<and> 0 \<le> x \<and> x < 8
                              \<longrightarrow> cell_pixel font cell y x \<noteq> 0))"
    using Suc.hyps(1) [OF n] Suc.prems by simp
  have split: "(\<forall>y x. glyph_y \<le> y \<and> y < 8 \<and> 0 \<le> x \<and> x < 8 \<longrightarrow> cell_pixel font cell y x \<noteq> 0)
             = ((\<forall>x. 0 \<le> x \<and> x < 8 \<longrightarrow> cell_pixel font cell glyph_y x \<noteq> 0)
                \<and> (\<forall>y x. glyph_y + 1 \<le> y \<and> y < 8 \<and> 0 \<le> x \<and> x < 8
                       \<longrightarrow> cell_pixel font cell y x \<noteq> 0))"
    (is "?L = (?A \<and> ?B)")
  proof
    assume ?L
    then show "?A \<and> ?B" using lt by auto
  next
    assume ab: "?A \<and> ?B"
    show ?L
    proof (intro allI impI)
      fix y x :: int
      assume h: "glyph_y \<le> y \<and> y < 8 \<and> 0 \<le> x \<and> x < 8"
      then consider "y = glyph_y" | "glyph_y + 1 \<le> y" by linarith
      then show "cell_pixel font cell y x \<noteq> 0"
        using ab h by cases auto
    qed
  qed
  show ?case
  proof (cases flag)
    case False
    then show ?thesis by (subst glyph_is_empty_y.simps) simp
  next
    case True
    show ?thesis
      apply (subst glyph_is_empty_y.simps)
      apply (simp only: True lt GLYPH_HEIGHT_def row bind_err_simps nxt ih split)
      apply simp
      done
  qed
qed

lemma cell_nonempty_iff:
  "cell_nonempty font cell
     = (\<exists>y x. 0 \<le> y \<and> y < 8 \<and> 0 \<le> x \<and> x < 8 \<and> cell_pixel font cell y x = 0)"
proof
  assume "cell_nonempty font cell"
  then obtain y x :: nat where "y < 8" "x < 8" "cell_pixel font cell (int y) (int x) = 0"
    by (auto simp: cell_nonempty_def list_ex_iff)
  then show "\<exists>y x. 0 \<le> y \<and> y < 8 \<and> 0 \<le> x \<and> x < 8 \<and> cell_pixel font cell y x = 0"
    by (intro exI [of _ "int y"] exI [of _ "int x"]) simp
next
  assume "\<exists>y x. 0 \<le> y \<and> y < 8 \<and> 0 \<le> x \<and> x < 8 \<and> cell_pixel font cell y x = 0"
  then obtain y x where h: "0 \<le> y" "y < 8" "0 \<le> x" "x < 8" "cell_pixel font cell y x = 0"
    by blast
  then have "nat y < 8" "nat x < 8" "cell_pixel font cell (int (nat y)) (int (nat x)) = 0"
    by simp_all
  then show "cell_nonempty font cell"
    unfolding cell_nonempty_def list_ex_iff
    by (metis atLeastLessThan_iff set_upt zero_le)
qed

lemma glyph_is_empty_cell:
  assumes "font_ok font" "cell_in_font font cell"
  shows "glyph_is_empty_y font ((fst cell * width font + snd cell) * bytes_per_color font) True 0
         = Inr (\<not> cell_nonempty font cell)"
proof -
  have "glyph_is_empty_y font ((fst cell * width font + snd cell) * bytes_per_color font) True 0
      = Inr (\<forall>y x. 0 \<le> y \<and> y < 8 \<and> 0 \<le> x \<and> x < 8 \<longrightarrow> cell_pixel font cell y x \<noteq> 0)"
    using glyph_is_empty_y_spec [OF assms, of 0 True] by simp
  then show ?thesis
    by (simp add: cell_nonempty_iff) blast
qed

lemma expand_x_spec:
  assumes "font_ok font" "cell_in_font font cell" "0 \<le> y" "y < 8" "0 \<le> glyph_x"
  shows "\<exists>bm'. expand_x font
           ((fst cell * width font + snd cell) * bytes_per_color font
               + y * (width font * bytes_per_color font)) y bm glyph_x = Inr bm'
         \<and> length bm' = length bm
         \<and> (\<forall>k<length bm. bm' ! k =
               (if int k div 8 = y \<and> glyph_x \<le> int k mod 8
                then px32 font cell (int k div 8) (int k mod 8) else bm ! k))"
  using assms(5)
proof (induction "nat (8 - glyph_x)" arbitrary: glyph_x bm)
  case 0
  then have ge: "8 \<le> glyph_x" by simp
  have no: "\<And>k. \<not> (int k div 8 = y \<and> glyph_x \<le> int k mod 8)"
  proof -
    fix k :: nat
    have "int k mod 8 < 8" by simp
    then show "\<not> (int k div 8 = y \<and> glyph_x \<le> int k mod 8)" using ge by linarith
  qed
  have "expand_x font
           ((fst cell * width font + snd cell) * bytes_per_color font
               + y * (width font * bytes_per_color font)) y bm glyph_x = Inr bm"
    using ge by (subst expand_x.simps) (simp add: GLYPH_WIDTH_def)
  then show ?case
    by (simp only: no if_False) simp
next
  case (Suc n)
  then have lt: "glyph_x < 8" and n: "n = nat (8 - (glyph_x + 1))" by simp_all
  note rd = read_pixel [OF assms(1-4) Suc.prems lt]
  let ?i = "nat (y * 8 + glyph_x)"
  let ?bm1 = "bm[?i := px32 font cell y glyph_x]"
  from Suc.hyps(1) [OF n, of ?bm1] Suc.prems
  obtain bm' where
    r: "expand_x font
           ((fst cell * width font + snd cell) * bytes_per_color font
               + y * (width font * bytes_per_color font)) y ?bm1 (glyph_x + 1) = Inr bm'"
    and l: "length bm' = length ?bm1"
    and v: "\<forall>k<length ?bm1. bm' ! k =
               (if int k div 8 = y \<and> glyph_x + 1 \<le> int k mod 8
                then px32 font cell (int k div 8) (int k mod 8) else ?bm1 ! k)"
    by auto
  have step: "expand_x font
           ((fst cell * width font + snd cell) * bytes_per_color font
               + y * (width font * bytes_per_color font)) y bm glyph_x = Inr bm'"
    apply (subst expand_x.simps)
    apply (simp only: lt GLYPH_WIDTH_def rd bind_err_simps if_True)
    using r by (simp add: px32_def split: if_splits)
  have idx: "\<And>k. (k = ?i) = (int k div 8 = y \<and> int k mod 8 = glyph_x)"
  proof -
    fix k :: nat
    show "(k = ?i) = (int k div 8 = y \<and> int k mod 8 = glyph_x)"
    proof
      assume "k = ?i"
      then have "int k = y * 8 + glyph_x" using assms(3) Suc.prems by simp
      then show "int k div 8 = y \<and> int k mod 8 = glyph_x"
        using Suc.prems lt by simp
    next
      assume h: "int k div 8 = y \<and> int k mod 8 = glyph_x"
      have "int k = (int k div 8) * 8 + int k mod 8" by simp
      then have "int k = y * 8 + glyph_x" using h by simp
      then show "k = ?i" by simp
    qed
  qed
  have "\<forall>k<length bm. bm' ! k =
               (if int k div 8 = y \<and> glyph_x \<le> int k mod 8
                then px32 font cell (int k div 8) (int k mod 8) else bm ! k)"
  proof (intro allI impI)
    fix k assume k: "k < length bm"
    then have k1: "k < length ?bm1" by simp
    show "bm' ! k = (if int k div 8 = y \<and> glyph_x \<le> int k mod 8
                then px32 font cell (int k div 8) (int k mod 8) else bm ! k)"
    proof (cases "k = ?i")
      case True
      then have d: "int k div 8 = y" "int k mod 8 = glyph_x" using idx [of k] by simp_all
      then have "bm' ! k = ?bm1 ! k" using v k1 by simp
      also have "\<dots> = px32 font cell y glyph_x" using True k by simp
      finally show ?thesis using d by simp
    next
      case False
      then have nd: "\<not> (int k div 8 = y \<and> int k mod 8 = glyph_x)" using idx [of k] by simp
      have "bm' ! k = (if int k div 8 = y \<and> glyph_x + 1 \<le> int k mod 8
                then px32 font cell (int k div 8) (int k mod 8) else ?bm1 ! k)"
        using v k1 by blast
      moreover have "?bm1 ! k = bm ! k" using False by simp
      moreover have "(int k div 8 = y \<and> glyph_x + 1 \<le> int k mod 8)
                   = (int k div 8 = y \<and> glyph_x \<le> int k mod 8)"
        using nd by auto
      ultimately show ?thesis by simp
    qed
  qed
  then show ?case using step l by simp
qed

lemma expand_y_spec:
  assumes "font_ok font" "cell_in_font font cell" "0 \<le> glyph_y"
  shows "\<exists>bm'. expand_y font
           ((fst cell * width font + snd cell) * bytes_per_color font
               + glyph_y * (width font * bytes_per_color font)) bm glyph_y = Inr bm'
         \<and> length bm' = length bm
         \<and> (\<forall>k<length bm. bm' ! k =
               (if glyph_y \<le> int k div 8 \<and> int k div 8 < 8
                then px32 font cell (int k div 8) (int k mod 8) else bm ! k))"
  using assms(3)
proof (induction "nat (8 - glyph_y)" arbitrary: glyph_y bm)
  case 0
  then have ge: "8 \<le> glyph_y" by simp
  have no: "\<And>k. \<not> (glyph_y \<le> int k div 8 \<and> int k div 8 < 8)"
    using ge by linarith
  have "expand_y font
           ((fst cell * width font + snd cell) * bytes_per_color font
               + glyph_y * (width font * bytes_per_color font)) bm glyph_y = Inr bm"
    using ge by (subst expand_y.simps) (simp add: GLYPH_HEIGHT_def)
  then show ?case
    by (simp only: no if_False) simp
next
  case (Suc n)
  then have lt: "glyph_y < 8" and n: "n = nat (8 - (glyph_y + 1))" by simp_all
  from expand_x_spec [OF assms(1,2) Suc.prems lt, of 0 bm]
  obtain bm1 where
    r1: "expand_x font
           ((fst cell * width font + snd cell) * bytes_per_color font
               + glyph_y * (width font * bytes_per_color font)) glyph_y bm 0 = Inr bm1"
    and l1: "length bm1 = length bm"
    and v1: "\<forall>k<length bm. bm1 ! k =
               (if int k div 8 = glyph_y \<and> 0 \<le> int k mod 8
                then px32 font cell (int k div 8) (int k mod 8) else bm ! k)"
    by blast
  have nxt: "(fst cell * width font + snd cell) * bytes_per_color font
               + glyph_y * (width font * bytes_per_color font) + width font * bytes_per_color font
           = (fst cell * width font + snd cell) * bytes_per_color font
               + (glyph_y + 1) * (width font * bytes_per_color font)"
    by (simp add: algebra_simps)
  have "0 \<le> glyph_y + 1" using Suc.prems by simp
  from Suc.hyps(1) [OF n this, of bm1]
  obtain bm' where
    r: "expand_y font
           ((fst cell * width font + snd cell) * bytes_per_color font
               + (glyph_y + 1) * (width font * bytes_per_color font)) bm1 (glyph_y + 1) = Inr bm'"
    and l: "length bm' = length bm1"
    and v: "\<forall>k<length bm1. bm' ! k =
               (if glyph_y + 1 \<le> int k div 8 \<and> int k div 8 < 8
                then px32 font cell (int k div 8) (int k mod 8) else bm1 ! k)"
    by blast
  have step: "expand_y font
           ((fst cell * width font + snd cell) * bytes_per_color font
               + glyph_y * (width font * bytes_per_color font)) bm glyph_y = Inr bm'"
    apply (subst expand_y.simps)
    apply (simp only: lt GLYPH_HEIGHT_def r1 bind_err_simps if_True nxt r)
    done
  have "\<forall>k<length bm. bm' ! k =
               (if glyph_y \<le> int k div 8 \<and> int k div 8 < 8
                then px32 font cell (int k div 8) (int k mod 8) else bm ! k)"
  proof (intro allI impI)
    fix k assume k: "k < length bm"
    then have k1: "k < length bm1" using l1 by simp
    have a: "bm' ! k = (if glyph_y + 1 \<le> int k div 8 \<and> int k div 8 < 8
                then px32 font cell (int k div 8) (int k mod 8) else bm1 ! k)"
      using v k1 by blast
    have b: "bm1 ! k = (if int k div 8 = glyph_y
                then px32 font cell (int k div 8) (int k mod 8) else bm ! k)"
      using v1 k by simp
    show "bm' ! k = (if glyph_y \<le> int k div 8 \<and> int k div 8 < 8
                then px32 font cell (int k div 8) (int k mod 8) else bm ! k)"
    proof (cases "int k div 8 = glyph_y")
      case True
      then show ?thesis unfolding a b using lt by simp
    next
      case False
      then have "(glyph_y + 1 \<le> int k div 8 \<and> int k div 8 < 8)
               = (glyph_y \<le> int k div 8 \<and> int k div 8 < 8)" by linarith
      then show ?thesis unfolding a b using False by simp
    qed
  qed
  then show ?case using step l l1 by simp
qed

lemma expand_cell:
  assumes "font_ok font" "cell_in_font font cell"
  shows "expand_y font ((fst cell * width font + snd cell) * bytes_per_color font) (replicate 64 0) 0
         = Inr (cell_bitmap font cell)"
proof -
  define bm0 :: "u32 list" where "bm0 = replicate 64 0"
  have l0: "length bm0 = 64" by (simp add: bm0_def)
  have z: "(fst cell * width font + snd cell) * bytes_per_color font
             + 0 * (width font * bytes_per_color font)
           = (fst cell * width font + snd cell) * bytes_per_color font"
    by simp
  from expand_y_spec [OF assms, of 0 bm0]
  obtain bm' where
    r: "expand_y font ((fst cell * width font + snd cell) * bytes_per_color font) bm0 0 = Inr bm'"
    and l: "length bm' = length bm0"
    and v: "\<forall>k<length bm0. bm' ! k =
               (if 0 \<le> int k div 8 \<and> int k div 8 < 8
                then px32 font cell (int k div 8) (int k mod 8) else bm0 ! k)"
    unfolding z by blast
  have "bm' = cell_bitmap font cell"
  proof (rule nth_equalityI)
    show "length bm' = length (cell_bitmap font cell)"
      using l l0 by (simp add: cell_bitmap_def)
    fix k assume "k < length bm'"
    then have k: "k < 64" using l l0 by simp
    then have "0 \<le> int k div 8 \<and> int k div 8 < 8" by (auto simp: div_int_pos_iff)
    then have "bm' ! k = px32 font cell (int k div 8) (int k mod 8)"
      using v k l0 by simp
    moreover have "cell_bitmap font cell ! k = px32 font cell (int (k div 8)) (int (k mod 8))"
      using k by (simp add: cell_bitmap_def px32_def)
    moreover have "int (k div 8) = int k div 8" "int (k mod 8) = int k mod 8"
      by (simp_all add: zdiv_int zmod_int)
    ultimately show "bm' ! k = cell_bitmap font cell ! k"
      by (simp only:)
  qed
  then show ?thesis using r by (simp add: bm0_def)
qed

subsection \<open>The cursor into the legend\<close>

lemma utf8_chop_char_result:
  assumes "utf8_chop_char mem string = Inr (result, string', c)"
  shows "sv_data result = sv_data string"
    and "1 \<le> sv_size result" and "sv_size result \<le> 4"
    and "sv_data string' = sv_data string + sv_size result"
    and "sv_size string' = sv_size string - sv_size result"
    and "\<exists>b0. read_u8 mem (sv_data string) = Inr b0 \<and> utf8_char_size b0 = sv_size result"
proof -
  from assms obtain b0 where b0: "read_u8 mem (sv_data string) = Inr b0"
    by (cases "read_u8 mem (sv_data string)") (simp_all add: utf8_chop_char_def)
  have cs: "utf8_char_size b0 \<in> {1, 2, 3, 4}"
    using assms b0 by (auto simp: utf8_chop_char_def Let_def split: if_splits)
  have r: "result = \<lparr>sv_data = sv_data string, sv_size = utf8_char_size b0\<rparr>"
    and s: "string' = string\<lparr>sv_data := sv_data string + utf8_char_size b0,
                              sv_size := sv_size string - utf8_char_size b0\<rparr>"
    using assms b0 by (auto simp: utf8_chop_char_def Let_def bind_err_def split: if_splits sum.splits)
  show "sv_data result = sv_data string" using r by simp
  show "1 \<le> sv_size result" using r cs by auto
  show "sv_size result \<le> 4" using r cs by auto
  show "sv_data string' = sv_data string + sv_size result" using r s by simp
  show "sv_size string' = sv_size string - sv_size result" using r s by simp
  show "\<exists>b0. read_u8 mem (sv_data string) = Inr b0 \<and> utf8_char_size b0 = sv_size result"
    using b0 r by simp
qed

lemma utf8_validate_step:
  assumes "utf8_validate mem string = Inr True" "0 < sv_size string"
  shows "\<exists>result string' c. utf8_chop_char mem string = Inr (result, string', c)
           \<and> utf8_validate mem string' = Inr True \<and> sv_size result \<le> sv_size string"
proof -
  from assms obtain b0 where b0: "read_u8 mem (sv_data string) = Inr b0"
    by (cases "read_u8 mem (sv_data string)") (simp_all add: utf8_validate.simps [of mem string])
  have ok: "\<not> (utf8_char_size b0 = 0 \<or> sv_size string < utf8_char_size b0)"
    using assms b0 by (auto simp: utf8_validate.simps [of mem string] Let_def)
  then obtain result string' c where ch: "utf8_chop_char mem string = Inr (result, string', c)"
    using assms b0
    by (cases "utf8_chop_char mem string")
       (auto simp: utf8_validate.simps [of mem string] Let_def)
  have v: "utf8_validate mem string' = Inr True"
    using assms b0 ok ch
    by (auto simp: utf8_validate.simps [of mem string] Let_def split: if_splits)
  have "utf8_char_size b0 = sv_size result"
    using utf8_chop_char_result(6) [OF ch] b0 by simp
  then show ?thesis using ch v ok by auto
qed

lemma legend_rest_Nil:
  assumes "legend_rest mem string []"
  shows "sv_size string = 0"
proof (rule ccontr)
  assume "sv_size string \<noteq> 0"
  then have pos: "0 < sv_size string"
    using assms by (simp add: legend_rest_def cursor_ok_def)
  have v0: "utf8_validate mem string = Inr True"
    using assms by (simp add: legend_rest_def)
  from utf8_validate_step [OF v0 pos]
  obtain result string' c where ch: "utf8_chop_char mem string = Inr (result, string', c)"
    by blast
  have "chars_of mem string \<noteq> Inr []"
    using pos ch by (subst chars_of.simps) (simp add: bind_err_def split: sum.splits)
  then show False using assms by (simp add: legend_rest_def)
qed

lemma legend_rest_Cons:
  assumes "legend_rest mem string (x # xs)"
  shows "\<exists>string'. utf8_chop_char mem string = Inr (fst x, string', snd x)
           \<and> legend_rest mem string' xs"
proof -
  have pos: "0 < sv_size string"
  proof (rule ccontr)
    assume "\<not> 0 < sv_size string"
    then have "chars_of mem string = Inr []" by (subst chars_of.simps) simp
    then show False using assms by (simp add: legend_rest_def)
  qed
  have v0: "utf8_validate mem string = Inr True"
    using assms by (simp add: legend_rest_def)
  from utf8_validate_step [OF v0 pos]
  obtain result string' c where ch: "utf8_chop_char mem string = Inr (result, string', c)"
    and v: "utf8_validate mem string' = Inr True" and le: "sv_size result \<le> sv_size string"
    by blast
  have "chars_of mem string = bind_err (chars_of mem string') (\<lambda>rest. Inr ((result, c) # rest))"
    using pos ch by (subst chars_of.simps) simp
  then have x: "x = (result, c)" and rest: "chars_of mem string' = Inr xs"
    using assms by (auto simp: legend_rest_def bind_err_def split: sum.splits)
  have "cursor_ok mem string'"
    using assms utf8_chop_char_result [OF ch] le by (simp add: legend_rest_def cursor_ok_def)
  then show ?thesis
    using ch v rest x by (auto simp: legend_rest_def)
qed

lemma validate_chars_of:
  assumes "utf8_validate mem string = Inr True"
  shows "\<exists>xs. chars_of mem string = Inr xs"
  using assms
proof (induction "nat (sv_size string)" arbitrary: string rule: less_induct)
  case less
  show ?case
  proof (cases "0 < sv_size string")
    case False
    then show ?thesis by (subst chars_of.simps) simp
  next
    case True
    from utf8_validate_step [OF less.prems True]
    obtain result string' c where ch: "utf8_chop_char mem string = Inr (result, string', c)"
      and v: "utf8_validate mem string' = Inr True"
      by blast
    have "nat (sv_size string') < nat (sv_size string)"
      using utf8_chop_char_size [OF ch] True by simp
    from less.hyps [OF this v] obtain xs where "chars_of mem string' = Inr xs" by blast
    then show ?thesis
      using True ch by (subst chars_of.simps) simp
  qed
qed

lemma legend_rest_start:
  assumes "utf8_validate mem (view_of mem) = Inr True"
  shows "\<exists>xs. legend_rest mem (view_of mem) xs"
  using validate_chars_of [OF assms] assms
  by (auto simp: legend_rest_def cursor_ok_def view_of_def)

lemma count_font_chars_spec:
  assumes "legend_rest mem string xs"
  shows "count_font_chars mem string k = Inr (k + int (length (filter not_space xs)))"
  using assms
proof (induction xs arbitrary: string k)
  case Nil
  then have "sv_size string = 0" by (rule legend_rest_Nil)
  then show ?case by (subst count_font_chars.simps) simp
next
  case (Cons x xs)
  from legend_rest_Cons [OF Cons.prems]
  obtain string' where ch: "utf8_chop_char mem string = Inr (fst x, string', snd x)"
    and rest: "legend_rest mem string' xs"
    by blast
  have pos: "0 < sv_size string"
    using utf8_chop_char_size [OF ch] rest by (simp add: legend_rest_def cursor_ok_def)
  show ?case
    apply (subst count_font_chars.simps)
    apply (simp only: pos ch if_True bind_err_simps prod.case Cons.IH [OF rest])
    apply (simp add: not_space_def)
    done
qed

lemma next_font_char_spec:
  assumes "legend_rest mem string xs" "filter not_space xs = x # others"
  shows "\<exists>string' xs'. next_font_char mem string = Inr (fst x, string', snd x)
           \<and> legend_rest mem string' xs' \<and> filter not_space xs' = others"
  using assms
proof (induction xs arbitrary: string)
  case Nil
  then show ?case by simp
next
  case (Cons y ys)
  from legend_rest_Cons [OF Cons.prems(1)]
  obtain string1 where ch: "utf8_chop_char mem string = Inr (fst y, string1, snd y)"
    and rest: "legend_rest mem string1 ys"
    by blast
  show ?case
  proof (cases "not_space y")
    case True
    then have "y = x" "filter not_space ys = others"
      using Cons.prems(2) by simp_all
    moreover have "next_font_char mem string = Inr (fst y, string1, snd y)"
      using True ch by (subst next_font_char.simps) (simp add: not_space_def)
    ultimately show ?thesis using rest by blast
  next
    case False
    then have f: "filter not_space ys = x # others"
      using Cons.prems(2) by simp
    have "next_font_char mem string = next_font_char mem string1"
      using False ch by (subst next_font_char.simps) (simp add: not_space_def)
    then show ?thesis
      using Cons.IH [OF rest f] by simp
  qed
qed

subsection \<open>The loops over the grid\<close>

lemma bind_err_assoc:
  "bind_err (bind_err m f) g = bind_err m (\<lambda>x. bind_err (f x) g)"
  by (cases m) simp_all

lemma bind_err_Inr [simp]: "bind_err m Inr = m"
  by (cases m) simp_all

lemma alloc_seq_append:
  "bind_err (alloc_seq a (rs @ rs')) f = bind_err (alloc_seq a rs) (\<lambda>a'. bind_err (alloc_seq a' rs') f)"
proof (induction rs arbitrary: a)
  case Nil
  show ?case by simp
next
  case (Cons r rs)
  obtain sz al where r: "r = (sz, al)" by (cases r)
  show ?case
  proof (cases "arena_alloc_aligned a sz al")
    case (Inl e)
    then show ?thesis by (simp add: r)
  next
    case (Inr pa)
    then show ?thesis by (cases pa) (simp add: r Cons.IH)
  qed
qed

lemma run_cells_append:
  "run_cells chars font n (cs @ cs') st
     = bind_err (run_cells chars font n cs st) (run_cells chars font n cs')"
proof (induction cs arbitrary: st)
  case Nil
  show ?case by simp
next
  case (Cons c cs)
  show ?case
    by (cases "cell_step chars font n (fst c) (snd c) st") (simp_all add: Cons.IH)
qed

lemma cell_step_spec:
  assumes "font_ok font" "cell_in_font font cell"
    and "legend_rest chars (st_font_char_iter st) xs"
    and "int (length (st_glyphs st)) + int (length (filter not_space xs)) = n"
  shows "\<not> cell_nonempty font cell \<Longrightarrow> cell_step chars font n (fst cell) (snd cell) st = Inr st"
    and "cell_nonempty font cell \<Longrightarrow> filter not_space xs = [] \<Longrightarrow>
           cell_step chars font n (fst cell) (snd cell) st = Inl (Exit1 more_glyphs_message)"
    and "cell_nonempty font cell \<Longrightarrow> filter not_space xs = x # others \<Longrightarrow>
           \<exists>it' xs'. legend_rest chars it' xs' \<and> filter not_space xs' = others
             \<and> (\<forall>a. cell_step chars font n (fst cell) (snd cell) (st\<lparr>st_arena := a\<rparr>)
                   = bind_err (alloc_seq a (glyph_requests [x]))
                       (\<lambda>a'. Inr \<lparr>st_glyphs = st_glyphs st @ [glyph_of chars font x cell],
                                  st_font_char_iter = it', st_arena = a'\<rparr>))"
proof -
  note em = glyph_is_empty_cell [OF assms(1,2)]
  note ex = expand_cell [OF assms(1,2)]
  show "\<not> cell_nonempty font cell \<Longrightarrow> cell_step chars font n (fst cell) (snd cell) st = Inr st"
    by (simp add: cell_step_def em)
  show "cell_nonempty font cell \<Longrightarrow> filter not_space xs = [] \<Longrightarrow>
           cell_step chars font n (fst cell) (snd cell) st = Inl (Exit1 more_glyphs_message)"
    using assms(4) by (simp add: cell_step_def em)
  assume ne: "cell_nonempty font cell" and f: "filter not_space xs = x # others"
  from next_font_char_spec [OF assms(3) f]
  obtain it' xs' where nx: "next_font_char chars (st_font_char_iter st) = Inr (fst x, it', snd x)"
    and rest: "legend_rest chars it' xs'" and f': "filter not_space xs' = others"
    by blast
  have full: "int (length (st_glyphs st)) \<noteq> n"
    using assms(4) f by simp
  have "\<And>a. cell_step chars font n (fst cell) (snd cell) (st\<lparr>st_arena := a\<rparr>)
                   = bind_err (alloc_seq a (glyph_requests [x]))
                       (\<lambda>a'. Inr \<lparr>st_glyphs = st_glyphs st @ [glyph_of chars font x cell],
                                  st_font_char_iter = it', st_arena = a'\<rparr>)"
  proof -
    fix a
    show "cell_step chars font n (fst cell) (snd cell) (st\<lparr>st_arena := a\<rparr>)
                   = bind_err (alloc_seq a (glyph_requests [x]))
                       (\<lambda>a'. Inr \<lparr>st_glyphs = st_glyphs st @ [glyph_of chars font x cell],
                                  st_font_char_iter = it', st_arena = a'\<rparr>)"
      by (simp add: cell_step_def em ex ne full nx glyph_requests_def glyph_of_def
            bind_err_def split: sum.splits prod.splits)
  qed
  then show "\<exists>it' xs'. legend_rest chars it' xs' \<and> filter not_space xs' = others
             \<and> (\<forall>a. cell_step chars font n (fst cell) (snd cell) (st\<lparr>st_arena := a\<rparr>)
                   = bind_err (alloc_seq a (glyph_requests [x]))
                       (\<lambda>a'. Inr \<lparr>st_glyphs = st_glyphs st @ [glyph_of chars font x cell],
                                  st_font_char_iter = it', st_arena = a'\<rparr>))"
    using rest f' by blast
qed

lemma run_cells_spec:
  assumes "font_ok font" "\<forall>cell\<in>set cells. cell_in_font font cell"
    and "legend_rest chars (st_font_char_iter st) xs"
    and "int (length (st_glyphs st)) + int (length (filter not_space xs)) = n"
  shows "bind_err (run_cells chars font n cells st) (\<lambda>st'. Inr (st_glyphs st'))
         = scan_result chars font (filter not_space xs) (filter (cell_nonempty font) cells)
             (st_glyphs st) (st_arena st)"
  using assms(2-4)
proof (induction cells arbitrary: st xs)
  case Nil
  show ?case by (simp add: scan_result_def glyph_requests_def)
next
  case (Cons cell cells)
  have inf: "cell_in_font font cell" and infs: "\<forall>cell\<in>set cells. cell_in_font font cell"
    using Cons.prems(1) by simp_all
  note spec = cell_step_spec [OF assms(1) inf Cons.prems(2,3)]
  show ?case
  proof (cases "cell_nonempty font cell")
    case False
    have "bind_err (run_cells chars font n (cell # cells) st) (\<lambda>st'. Inr (st_glyphs st'))
        = bind_err (run_cells chars font n cells st) (\<lambda>st'. Inr (st_glyphs st'))"
      by (simp add: spec(1) [OF False])
    then show ?thesis
      using Cons.IH [OF infs Cons.prems(2,3)] False by simp
  next
    case True
    show ?thesis
    proof (cases "filter not_space xs")
      case Nil
      have "bind_err (run_cells chars font n (cell # cells) st) (\<lambda>st'. Inr (st_glyphs st'))
          = Inl (Exit1 more_glyphs_message)"
        by (simp add: spec(2) [OF True Nil])
      then show ?thesis
        using True Nil by (simp add: scan_result_def glyph_requests_def)
    next
      case (Cons x others)
      from spec(3) [OF True Cons]
      obtain it' xs' where rest: "legend_rest chars it' xs'" and f': "filter not_space xs' = others"
        and step: "\<And>a. cell_step chars font n (fst cell) (snd cell) (st\<lparr>st_arena := a\<rparr>)
                   = bind_err (alloc_seq a (glyph_requests [x]))
                       (\<lambda>a'. Inr \<lparr>st_glyphs = st_glyphs st @ [glyph_of chars font x cell],
                                  st_font_char_iter = it', st_arena = a'\<rparr>)"
        by blast
      let ?st1 = "\<lambda>a'. \<lparr>st_glyphs = st_glyphs st @ [glyph_of chars font x cell],
                          st_font_char_iter = it', st_arena = a'\<rparr>"
      let ?ne = "filter (cell_nonempty font) cells"
      have cnt: "\<And>a'. int (length (st_glyphs (?st1 a'))) + int (length (filter not_space xs')) = n"
        using Cons.prems(3) Cons f' by simp
      have ih: "\<And>a'. bind_err (run_cells chars font n cells (?st1 a')) (\<lambda>st'. Inr (st_glyphs st'))
                 = scan_result chars font others ?ne (st_glyphs st @ [glyph_of chars font x cell]) a'"
        using Cons.IH [OF infs, of "?st1 a'" xs' for a'] rest cnt f' by simp
      have s0: "cell_step chars font n (fst cell) (snd cell) st
                 = bind_err (alloc_seq (st_arena st) (glyph_requests [x])) (\<lambda>a'. Inr (?st1 a'))"
        using step [of "st_arena st"] by simp
      have "bind_err (run_cells chars font n (cell # cells) st) (\<lambda>st'. Inr (st_glyphs st'))
          = bind_err (alloc_seq (st_arena st) (glyph_requests [x]))
              (\<lambda>a'. bind_err (run_cells chars font n cells (?st1 a')) (\<lambda>st'. Inr (st_glyphs st')))"
        by (simp add: s0 bind_err_assoc)
      also have "\<dots> = bind_err (alloc_seq (st_arena st) (glyph_requests [x]))
              (\<lambda>a'. scan_result chars font others ?ne (st_glyphs st @ [glyph_of chars font x cell]) a')"
        by (simp only: ih)
      also have "\<dots> = scan_result chars font (x # others) (cell # ?ne) (st_glyphs st) (st_arena st)"
      proof -
        have rq: "glyph_requests (take (length (cell # ?ne)) (x # others))
                = glyph_requests [x] @ glyph_requests (take (length ?ne) others)"
          by (simp add: glyph_requests_def)
        have gl: "(st_glyphs st @ [glyph_of chars font x cell]) @ map2 (glyph_of chars font) others ?ne
                = st_glyphs st @ map2 (glyph_of chars font) (x # others) (cell # ?ne)"
          by simp
        have le: "(length (cell # ?ne) \<le> length (x # others)) = (length ?ne \<le> length others)"
          by simp
        show ?thesis
          unfolding scan_result_def rq alloc_seq_append gl le ..
      qed
      finally show ?thesis
        using True Cons by simp
    qed
  qed
qed

lemma div8: "(j < (w + 7) div 8) = (8 * j < (w::int))"
  by linarith

lemma cols_iff: "(k < nat ((w + 7) div 8)) = (8 * int k < w)"
proof -
  have "(k < nat ((w + 7) div 8)) = (int k < (w + 7) div 8)"
    by linarith
  then show ?thesis by (simp only: div8)
qed

lemma cell_fits:
  assumes "k < nat ((w + 7) div 8)" "w mod 8 = 0"
  shows "8 * int k + 8 \<le> w"
proof -
  have "8 * int k < w" using assms(1) by (simp only: cols_iff)
  moreover obtain q where "w = 8 * q" using assms(2) by (metis mod_eq_0_iff_dvd dvd_def)
  ultimately show ?thesis by simp
qed

lemma grid_x_loop_cells:
  "grid_x_loop chars font n gy (8 * int k) st
     = run_cells chars font n (map (\<lambda>c. (gy, 8 * int c)) [k..<nat ((width font + 7) div 8)]) st"
proof (induction "nat ((width font + 7) div 8) - k" arbitrary: k st)
  case 0
  then have "\<not> k < nat ((width font + 7) div 8)" by simp
  then have ge: "\<not> 8 * int k < width font" and e: "[k..<nat ((width font + 7) div 8)] = []"
    by (simp_all add: cols_iff)
  show ?case
    by (subst grid_x_loop.simps) (simp add: ge e)
next
  case (Suc m)
  then have lt: "k < nat ((width font + 7) div 8)" and m: "m = nat ((width font + 7) div 8) - Suc k"
    by simp_all
  then have c: "8 * int k < width font" by (simp only: cols_iff)
  have e: "[k..<nat ((width font + 7) div 8)] = k # [Suc k..<nat ((width font + 7) div 8)]"
    using lt by (simp add: upt_conv_Cons)
  have nxt: "8 * int k + GLYPH_WIDTH = 8 * int (Suc k)"
    by (simp add: GLYPH_WIDTH_def)
  have ih: "grid_x_loop chars font n gy (8 * int (Suc k))
              = run_cells chars font n (map (\<lambda>c. (gy, 8 * int c)) [Suc k..<nat ((width font + 7) div 8)])"
    using Suc.hyps(1) [OF m] by (intro ext)
  show ?case
    apply (subst grid_x_loop.simps)
    apply (simp only: c if_True nxt ih e)
    apply simp
    done
qed

lemma grid_y_loop_cells:
  "grid_y_loop chars font n (8 * int r) st
     = run_cells chars font n
         (concat (map (\<lambda>r. map (\<lambda>c. (8 * int r, 8 * int c)) [0..<nat ((width font + 7) div 8)])
                    [r..<nat ((height font + 7) div 8)])) st"
proof (induction "nat ((height font + 7) div 8) - r" arbitrary: r st)
  case 0
  then have "\<not> r < nat ((height font + 7) div 8)" by simp
  then have ge: "\<not> 8 * int r < height font" and e: "[r..<nat ((height font + 7) div 8)] = []"
    by (simp_all add: cols_iff)
  show ?case
    by (subst grid_y_loop.simps) (simp add: ge e)
next
  case (Suc m)
  then have lt: "r < nat ((height font + 7) div 8)" and m: "m = nat ((height font + 7) div 8) - Suc r"
    by simp_all
  then have c: "8 * int r < height font" by (simp only: cols_iff)
  have e: "[r..<nat ((height font + 7) div 8)] = r # [Suc r..<nat ((height font + 7) div 8)]"
    using lt by (simp add: upt_conv_Cons)
  have nxt: "8 * int r + GLYPH_HEIGHT = 8 * int (Suc r)"
    by (simp add: GLYPH_HEIGHT_def)
  have row: "\<And>st. grid_x_loop chars font n (8 * int r) 0 st
               = run_cells chars font n (map (\<lambda>c. (8 * int r, 8 * int c)) [0..<nat ((width font + 7) div 8)]) st"
    using grid_x_loop_cells [of chars font n "8 * int r" 0] by simp
  have ih: "grid_y_loop chars font n (8 * int (Suc r))
              = run_cells chars font n
                  (concat (map (\<lambda>r. map (\<lambda>c. (8 * int r, 8 * int c)) [0..<nat ((width font + 7) div 8)])
                    [Suc r..<nat ((height font + 7) div 8)]))"
    using Suc.hyps(1) [OF m] by (intro ext)
  show ?case
    apply (subst grid_y_loop.simps)
    apply (simp only: c if_True nxt ih e row)
    apply (simp add: run_cells_append)
    done
qed

lemma grid_y_loop_grid_cells:
  "grid_y_loop chars font n 0 st = run_cells chars font n (grid_cells font) st"
  using grid_y_loop_cells [of chars font n 0 st] by (simp add: grid_cells_def)

lemma grid_cells_in_font:
  assumes "0 \<le> width font" "0 \<le> height font" "width font mod 8 = 0" "height font mod 8 = 0"
  shows "\<forall>cell\<in>set (grid_cells font). cell_in_font font cell"
proof
  fix cell assume "cell \<in> set (grid_cells font)"
  then obtain r c where r: "r < nat ((height font + 7) div 8)" and c: "c < nat ((width font + 7) div 8)"
    and cell: "cell = (8 * int r, 8 * int c)"
    by (auto simp: grid_cells_def)
  have "8 * int r + 8 \<le> height font" using r assms(4) by (rule cell_fits)
  moreover have "8 * int c + 8 \<le> width font" using c assms(3) by (rule cell_fits)
  ultimately show "cell_in_font font cell"
    by (simp add: cell cell_in_font_def)
qed

lemma alloc_ok:
  assumes "0 < sz" "alignment_ok al" "al < 2 ^ 63" "al - 1 + sz \<le> memory_remaining a"
  shows "\<exists>p a'. arena_alloc_aligned a sz al = Inr (p, a')
           \<and> memory_remaining a - (al - 1 + sz) \<le> memory_remaining a'"
proof -
  have "0 \<le> arena_padding a al \<and> arena_padding a al < al"
    using arena_padding_bounds [of al a] assms(2,3) by (simp add: alignment_ok_def)
  then show ?thesis
    using assms by (simp add: arena_alloc_aligned_def memory_remaining_def Let_def)
qed

lemma glyph_requests_ok:
  assumes "\<forall>x\<in>set xs. 1 \<le> sv_size (fst x) \<and> sv_size (fst x) \<le> 4"
    and "264 * int (length xs) \<le> memory_remaining a"
  shows "\<exists>a'. alloc_seq a (glyph_requests xs) = Inr a'"
  using assms
proof (induction xs arbitrary: a)
  case Nil
  show ?case by (simp add: glyph_requests_def)
next
  case (Cons x xs)
  have sz: "1 \<le> sv_size (fst x)" "sv_size (fst x) \<le> 4"
    using Cons.prems(1) by simp_all
  have room: "264 + 264 * int (length xs) \<le> memory_remaining a"
    using Cons.prems(2) by simp
  have ok1: "alignment_ok 1" and ok4: "alignment_ok 4"
    by (simp_all add: alignment_ok_def)
  from alloc_ok [of "sv_size (fst x) + 1" 1 a] sz room ok1
  obtain p1 a1 where a1: "arena_alloc_aligned a (sv_size (fst x) + 1) 1 = Inr (p1, a1)"
    and r1: "memory_remaining a - (sv_size (fst x) + 1) \<le> memory_remaining a1"
    by auto
  from alloc_ok [of 256 4 a1] sz room ok4 r1
  obtain p2 a2 where a2: "arena_alloc_aligned a1 256 4 = Inr (p2, a2)"
    and r2: "memory_remaining a1 - 259 \<le> memory_remaining a2"
    by auto
  have "264 * int (length xs) \<le> memory_remaining a2"
    using room r1 r2 sz by linarith
  from Cons.IH [OF _ this] Cons.prems(1)
  obtain a' where "alloc_seq a2 (glyph_requests xs) = Inr a'" by auto
  then show ?case
    using a1 a2 by (simp add: glyph_requests_def GLYPH_WIDTH_def GLYPH_HEIGHT_def sizeof_u32_def)
qed

lemma legend_rest_sizes:
  assumes "legend_rest mem string xs"
  shows "\<forall>x\<in>set xs. 1 \<le> sv_size (fst x) \<and> sv_size (fst x) \<le> 4"
  using assms
proof (induction xs arbitrary: string)
  case Nil
  show ?case by simp
next
  case (Cons x xs)
  from legend_rest_Cons [OF Cons.prems]
  obtain string' where ch: "utf8_chop_char mem string = Inr (fst x, string', snd x)"
    and rest: "legend_rest mem string' xs"
    by blast
  show ?case
    using utf8_chop_char_result(2,3) [OF ch] Cons.IH [OF rest] by simp
qed

lemma extract_glyphs_spec:
  assumes "legend_rest chars (view_of chars) xs" "font_ok font"
    and "width font mod 8 = 0" "height font mod 8 = 0"
  shows "extract_glyphs a chars (Some font)
         = bind_err (arena_alloc a (int (length (filter not_space xs)) * sizeof_Glyph))
             (\<lambda>pa. bind_err (scan_result chars font (filter not_space xs) (nonempty_cells font) [] (snd pa))
                     (finish_scan (int (length (filter not_space xs)))))"
proof -
  let ?n = "int (length (filter not_space xs))"
  have v: "utf8_validate chars (view_of chars) = Inr True"
    using assms(1) by (simp add: legend_rest_def)
  have c: "count_font_chars chars (view_of chars) 0 = Inr ?n"
    using count_font_chars_spec [OF assms(1), of 0] by simp
  have inf: "\<forall>cell\<in>set (grid_cells font). cell_in_font font cell"
    using grid_cells_in_font assms(2-4) by (simp add: font_ok_def)
  have scan: "\<And>a1. bind_err (grid_y_loop chars font ?n 0
                         \<lparr>st_glyphs = [], st_font_char_iter = view_of chars, st_arena = a1\<rparr>)
                     (\<lambda>st. if int (length (st_glyphs st)) \<noteq> ?n then Inl (Exit1 more_chars_message)
                           else Inr (st_glyphs st))
                 = bind_err (scan_result chars font (filter not_space xs) (nonempty_cells font) [] a1)
                     (finish_scan ?n)"
  proof -
    fix a1
    let ?st = "\<lparr>st_glyphs = [], st_font_char_iter = view_of chars, st_arena = a1\<rparr>"
    have "bind_err (run_cells chars font ?n (grid_cells font) ?st) (\<lambda>st'. Inr (st_glyphs st'))
            = scan_result chars font (filter not_space xs) (nonempty_cells font) [] a1"
      using run_cells_spec [OF assms(2) inf, of chars ?st xs ?n] assms(1)
      by (simp add: nonempty_cells_def)
    then have "bind_err (scan_result chars font (filter not_space xs) (nonempty_cells font) [] a1)
                  (finish_scan ?n)
             = bind_err (bind_err (run_cells chars font ?n (grid_cells font) ?st)
                           (\<lambda>st'. Inr (st_glyphs st')))
                  (finish_scan ?n)"
      by simp
    also have "\<dots> = bind_err (run_cells chars font ?n (grid_cells font) ?st)
                  (\<lambda>st'. finish_scan ?n (st_glyphs st'))"
      by (simp add: bind_err_assoc)
    finally have "bind_err (scan_result chars font (filter not_space xs) (nonempty_cells font) [] a1)
                  (finish_scan ?n)
             = bind_err (run_cells chars font ?n (grid_cells font) ?st)
                  (\<lambda>st'. finish_scan ?n (st_glyphs st'))" .
    then show "bind_err (grid_y_loop chars font ?n 0 ?st)
                     (\<lambda>st. if int (length (st_glyphs st)) \<noteq> ?n then Inl (Exit1 more_chars_message)
                           else Inr (st_glyphs st))
                 = bind_err (scan_result chars font (filter not_space xs) (nonempty_cells font) [] a1)
                     (finish_scan ?n)"
      by (simp add: grid_y_loop_grid_cells finish_scan_def)
  qed
  show ?thesis
    unfolding extract_glyphs_def
    by (simp add: v c assms(3,4) GLYPH_WIDTH_def GLYPH_HEIGHT_def scan [simplified] split_def)
qed

lemma scan_result_room:
  assumes "\<forall>x\<in>set ns. 1 \<le> sv_size (fst x) \<and> sv_size (fst x) \<le> 4"
    and "264 * int (length ns) \<le> memory_remaining a"
  shows "scan_result chars font ns ne done a
         = (if length ne \<le> length ns then Inr (done @ map2 (glyph_of chars font) ns ne)
            else Inl (Exit1 more_glyphs_message))"
proof -
  have "\<forall>x\<in>set (take (length ne) ns). 1 \<le> sv_size (fst x) \<and> sv_size (fst x) \<le> 4"
    using assms(1) by (meson in_set_takeD)
  moreover have "264 * int (length (take (length ne) ns)) \<le> memory_remaining a"
    using assms(2) by (simp add: min_def)
  ultimately obtain a' where "alloc_seq a (glyph_requests (take (length ne) ns)) = Inr a'"
    using glyph_requests_ok by blast
  then show ?thesis by (simp add: scan_result_def)
qed

lemma glyph_array_room:
  assumes "0 \<le> n" "15 + 288 * n \<le> memory_remaining a"
  shows "\<exists>p a1. arena_alloc a (n * sizeof_Glyph) = Inr (p, a1) \<and> 264 * n \<le> memory_remaining a1"
proof (cases "n = 0")
  case True
  then show ?thesis
    using assms(2) by (simp add: arena_alloc_def arena_alloc_aligned_def alignment_ok_default)
next
  case False
  then have pos: "0 < n * 24" using assms(1) by simp
  have al: "alignment_ok 16" "(16::int) < 2 ^ 63" by (simp_all add: alignment_ok_def)
  have "16 - 1 + n * 24 \<le> memory_remaining a"
    using assms by simp
  from alloc_ok [OF pos al this]
  obtain p a1 where "arena_alloc_aligned a (n * 24) 16 = Inr (p, a1)"
    and "memory_remaining a - (15 + n * 24) \<le> memory_remaining a1"
    by auto
  then show ?thesis
    using assms(2) by (simp add: arena_alloc_def ARENA_DEFAULT_ALIGNMENT_def sizeof_Glyph_def)
qed

lemma extract_glyphs_room:
  assumes "legend_rest chars (view_of chars) xs" "font_ok font"
    and "width font mod 8 = 0" "height font mod 8 = 0"
    and "15 + 288 * int (length (filter not_space xs)) \<le> memory_remaining a"
  shows "extract_glyphs a chars (Some font)
         = (if length (nonempty_cells font) < length (filter not_space xs)
              then Inl (Exit1 more_chars_message)
            else if length (filter not_space xs) < length (nonempty_cells font)
              then Inl (Exit1 more_glyphs_message)
            else Inr (map2 (glyph_of chars font) (filter not_space xs) (nonempty_cells font)))"
proof -
  let ?ns = "filter not_space xs" and ?ne = "nonempty_cells font"
  from glyph_array_room [OF _ assms(5)]
  obtain p a1 where a: "arena_alloc a (int (length ?ns) * sizeof_Glyph) = Inr (p, a1)"
    and r: "264 * int (length ?ns) \<le> memory_remaining a1"
    by auto
  have sz: "\<forall>x\<in>set ?ns. 1 \<le> sv_size (fst x) \<and> sv_size (fst x) \<le> 4"
    using legend_rest_sizes [OF assms(1)] by simp
  show ?thesis
    unfolding extract_glyphs_spec [OF assms(1-4)]
    by (simp add: a scan_result_room [OF sz r] finish_scan_def)
qed

lemma extract_glyphs_Inr:
  assumes "legend_rest chars (view_of chars) xs" "font_ok font"
    and "extract_glyphs a chars (Some font) = Inr gs"
  shows "length (nonempty_cells font) = length (filter not_space xs)
         \<and> gs = map2 (glyph_of chars font) (filter not_space xs) (nonempty_cells font)"
proof -
  let ?ns = "filter not_space xs" and ?ne = "nonempty_cells font"
  have v: "utf8_validate chars (view_of chars) = Inr True"
    using assms(1) by (simp add: legend_rest_def)
  have c: "count_font_chars chars (view_of chars) 0 = Inr (int (length ?ns))"
    using count_font_chars_spec [OF assms(1), of 0] by simp
  have dims: "width font mod 8 = 0" "height font mod 8 = 0"
    using assms(3) unfolding extract_glyphs_def
    by (auto simp: v c GLYPH_WIDTH_def GLYPH_HEIGHT_def split: if_splits)
  from assms(3) obtain pa where "arena_alloc a (int (length ?ns) * sizeof_Glyph) = Inr pa"
    and s: "bind_err (scan_result chars font ?ns ?ne [] (snd pa)) (finish_scan (int (length ?ns))) = Inr gs"
    unfolding extract_glyphs_spec [OF assms(1,2) dims]
    by (cases "arena_alloc a (int (length ?ns) * sizeof_Glyph)") auto
  from s obtain gs' where s1: "scan_result chars font ?ns ?ne [] (snd pa) = Inr gs'"
    and f: "finish_scan (int (length ?ns)) gs' = Inr gs"
    by (cases "scan_result chars font ?ns ?ne [] (snd pa)") auto
  from s1 have le: "length ?ne \<le> length ?ns" and g: "gs' = map2 (glyph_of chars font) ?ns ?ne"
    unfolding scan_result_def
    by (cases "alloc_seq (snd pa) (glyph_requests (take (length ?ne) ?ns))"; auto split: if_splits)+
  from f have "gs = gs'" and "length gs' = length ?ns"
    by (auto simp: finish_scan_def split: if_splits)
  then show ?thesis using le g by simp
qed

subsection \<open>Legends that are well-formed UTF-8\<close>

lemma encode_facts:
  assumes "is_scalar c"
  shows "utf8_encode c \<noteq> []"
    and "utf8_char_size (hd (utf8_encode c)) = int (length (utf8_encode c))"
    and "length (utf8_encode c) = 3 \<Longrightarrow>
           \<not> (c < 0x0800 \<or> c > 0xffff) \<and> \<not> (c \<ge> 0xd800 \<and> c \<le> 0xdfff)"
    and "length (utf8_encode c) = 4 \<Longrightarrow> \<not> (c < 0x10000 \<or> c > 0x10ffff)"
proof -
  have mx: "c \<le> 0x10FFFF" by (rule is_scalar_max [OF assms])
  consider (one) "c < 0x80"
    | (two) "\<not> c < 0x80" "c < 0x800"
    | (three) "\<not> c < 0x800" "c < 0x10000"
    | (four) "\<not> c < 0x10000"
    by blast
  then have "utf8_encode c \<noteq> []
    \<and> utf8_char_size (hd (utf8_encode c)) = int (length (utf8_encode c))
    \<and> (length (utf8_encode c) = 3 \<longrightarrow>
           \<not> (c < 0x0800 \<or> c > 0xffff) \<and> \<not> (c \<ge> 0xd800 \<and> c \<le> 0xdfff))
    \<and> (length (utf8_encode c) = 4 \<longrightarrow> \<not> (c < 0x10000 \<or> c > 0x10ffff))"
  proof cases
    case one
    then show ?thesis by (simp add: utf8_encode_def lead1)
  next
    case two
    then show ?thesis by (simp add: utf8_encode_def lead2)
  next
    case three
    have "\<not> c < 0x80" using three(1) by (simp add: word_less_nat_alt)
    moreover have "\<not> (c \<ge> 0xd800 \<and> c \<le> 0xdfff)"
      using assms by (auto simp: is_scalar_def word_le_nat_alt)
    moreover have "\<not> c > 0xffff" using three(2) by (simp add: word_less_nat_alt)
    ultimately show ?thesis using three by (simp add: utf8_encode_def lead3)
  next
    case four
    have "\<not> c < 0x80" "\<not> c < 0x800" using four by (simp_all add: word_less_nat_alt)
    moreover have "\<not> c > 0x10ffff" using mx by (simp add: word_less_nat_alt word_le_nat_alt)
    ultimately show ?thesis using four mx by (simp add: utf8_encode_def lead4)
  qed
  then show "utf8_encode c \<noteq> []"
    and "utf8_char_size (hd (utf8_encode c)) = int (length (utf8_encode c))"
    and "length (utf8_encode c) = 3 \<Longrightarrow>
           \<not> (c < 0x0800 \<or> c > 0xffff) \<and> \<not> (c \<ge> 0xd800 \<and> c \<le> 0xdfff)"
    and "length (utf8_encode c) = 4 \<Longrightarrow> \<not> (c < 0x10000 \<or> c > 0x10ffff)"
    by simp_all
qed

lemma legend_rest_encoded:
  assumes "list_all is_scalar cs"
  shows "legend_rest (pre @ utf8_encode_all cs)
           \<lparr>sv_data = int (length pre), sv_size = int (length (utf8_encode_all cs))\<rparr>
           (encoded_slices (int (length pre)) cs)"
  using assms
proof (induction cs arbitrary: pre)
  case Nil
  show ?case
    by (simp add: legend_rest_def cursor_ok_def utf8_encode_all_def
          utf8_validate.simps chars_of.simps)
next
  case (Cons c cs)
  let ?e = "utf8_encode c"
  let ?mem = "pre @ utf8_encode_all (c # cs)"
  let ?s = "\<lparr>sv_data = int (length pre), sv_size = int (length (utf8_encode_all (c # cs)))\<rparr>"
  let ?s' = "\<lparr>sv_data = int (length (pre @ ?e)), sv_size = int (length (utf8_encode_all cs))\<rparr>"
  let ?r = "\<lparr>sv_data = int (length pre), sv_size = int (length ?e)\<rparr>"
  have sc: "is_scalar c" and scs: "list_all is_scalar cs"
    using Cons.prems by simp_all
  note ef = encode_facts [OF sc]
  have mem: "?mem = (pre @ ?e) @ utf8_encode_all cs"
    by (simp add: utf8_encode_all_def)
  have ih: "legend_rest ?mem ?s' (encoded_slices (int (length (pre @ ?e))) cs)"
    using Cons.IH [OF scs, of "pre @ ?e"] by (simp only: mem)
  have vb: "view_bytes ?mem ?s = ?e @ utf8_encode_all cs"
    by (simp add: view_bytes_def utf8_encode_all_def)
  have tk: "take (length ?e) (view_bytes ?mem ?s) = ?e"
    by (simp add: vb)
  have d0: "0 \<le> sv_data ?s" by simp
  have ch: "utf8_chop_char ?mem ?s = Inr (?r, ?s', c)"
    using utf8_chop_char_encoded [OF sc d0 tk]
    by (simp add: utf8_encode_all_def)
  have len1: "0 < int (length ?e)" using ef(1) by simp
  have tot: "sv_size ?s = int (length ?e) + int (length (utf8_encode_all cs))"
    by (simp add: utf8_encode_all_def)
  have pos: "0 < sv_size ?s"
    using len1 tot by linarith
  have b0: "read_u8 ?mem (sv_data ?s) = Inr (hd ?e)"
    using ef(1) by (cases ?e) (simp_all add: read_u8_def utf8_encode_all_def nth_append)
  have le: "\<not> (utf8_char_size (hd ?e) = 0 \<or> sv_size ?s < utf8_char_size (hd ?e))"
    using len1 tot ef(2) by linarith
  have v': "utf8_validate ?mem ?s' = Inr True" and c': "chars_of ?mem ?s' = Inr (encoded_slices (int (length (pre @ ?e))) cs)"
    using ih by (simp_all add: legend_rest_def)
  have v: "utf8_validate ?mem ?s = Inr True"
    apply (subst utf8_validate.simps)
    apply (simp only: pos if_True b0 bind_err_simps Let_def le if_False ch prod.case v')
    using ef(2,3,4) apply auto
    done
  have co: "chars_of ?mem ?s = Inr (encoded_slices (int (length pre)) (c # cs))"
    apply (subst chars_of.simps)
    apply (simp only: pos if_True ch bind_err_simps prod.case c')
    apply simp
    done
  have "cursor_ok ?mem ?s"
    by (simp add: cursor_ok_def)
  then show ?case
    using v co by (simp add: legend_rest_def)
qed

lemma legend_rest_encoded_whole:
  assumes "list_all is_scalar cs"
  shows "legend_rest (utf8_encode_all cs) (view_of (utf8_encode_all cs)) (encoded_slices 0 cs)"
  using legend_rest_encoded [OF assms, of "[]"] by (simp add: view_of_def)

lemma encoded_slices_codes:
  "map snd (filter not_space (encoded_slices d cs)) = filter (\<lambda>c. \<not> char_is_space c) cs"
  by (induction cs arbitrary: d) (simp_all add: not_space_def)

lemma encoded_slices_bytes:
  assumes "x \<in> set (encoded_slices (int (length pre)) cs)"
  shows "view_bytes (pre @ utf8_encode_all cs @ post) (fst x) = utf8_encode (snd x)"
  using assms
proof (induction cs arbitrary: pre)
  case Nil
  then show ?case by simp
next
  case (Cons c cs)
  show ?case
  proof (cases "x = (\<lparr>sv_data = int (length pre), sv_size = int (length (utf8_encode c))\<rparr>, c)")
    case True
    then show ?thesis by (simp add: view_bytes_def utf8_encode_all_def)
  next
    case False
    then have "x \<in> set (encoded_slices (int (length (pre @ utf8_encode c))) cs)"
      using Cons.prems by simp
    from Cons.IH [OF this] show ?thesis
      by (simp add: utf8_encode_all_def)
  qed
qed

subsection \<open>The whole program\<close>

lemma load_store_bytes: "load_bytes (store_bytes m p bs) p (int (length bs)) = bs"
  by (rule nth_equalityI) (simp_all add: load_bytes_def store_bytes_def)

lemma memcpy_nothing: "memcpy m dst src 0 = m"
  by (rule ext) (auto simp: memcpy_def)

lemma main_read:
  assumes "arena_memory \<noteq> NULL"
  shows "main mem arena_memory (Some (bytes, True)) loaded
         = bind_err (arena_alloc \<lparr>begin_ptr = arena_memory, end_ptr = arena_memory + ARENA_CAPACITY\<rparr>
                       (int (length bytes)))
             (\<lambda>pa. extract_glyphs (snd pa) bytes loaded)"
proof (cases "bytes = []")
  case True
  then show ?thesis
    using assms
    by (simp add: main_def file_read_to_string_def load_bytes_def arena_alloc_def
          arena_alloc_aligned_def alignment_ok_default)
next
  case False
  then have pos: "0 < int (length bytes)" by simp
  show ?thesis
  proof (cases "arena_alloc \<lparr>begin_ptr = arena_memory, end_ptr = arena_memory + ARENA_CAPACITY\<rparr>
                  (int (length bytes))")
    case (Inl e)
    then show ?thesis
      using assms pos
      by (simp add: main_def file_read_to_string_def arena_realloc_def NULL_def Let_def)
  next
    case (Inr pa)
    obtain p a1 where pa: "pa = (p, a1)" by (cases pa)
    show ?thesis
      using assms pos Inr pa
      by (simp add: main_def file_read_to_string_def arena_realloc_def NULL_def
            memcpy_nothing load_store_bytes Let_def)
  qed
qed

lemma main_Inr:
  assumes "main mem arena_memory legend loaded = Inr gs"
  shows "\<exists>bytes a. legend = Some (bytes, True) \<and> extract_glyphs a bytes loaded = Inr gs"
proof -
  have nn: "arena_memory \<noteq> NULL"
    using assms by (auto simp: main_def split: if_splits)
  obtain bytes ok where f: "legend = Some (bytes, ok)"
    using assms nn by (cases legend) (auto simp: main_def file_read_to_string_def)
  have ok: "ok"
  proof (rule ccontr)
    assume "\<not> ok"
    then have "\<exists>e. main mem arena_memory legend loaded = Inl e"
      using nn f
      by (auto simp: main_def file_read_to_string_def Let_def bind_err_def
            split: sum.splits if_splits prod.splits)
    then show False using assms by auto
  qed
  from assms have "bind_err (arena_alloc \<lparr>begin_ptr = arena_memory, end_ptr = arena_memory + ARENA_CAPACITY\<rparr>
                       (int (length bytes)))
             (\<lambda>pa. extract_glyphs (snd pa) bytes loaded) = Inr gs"
    using main_read [OF nn, of mem bytes loaded] f ok by simp
  then obtain pa where "extract_glyphs (snd pa) bytes loaded = Inr gs"
    by (cases "arena_alloc \<lparr>begin_ptr = arena_memory, end_ptr = arena_memory + ARENA_CAPACITY\<rparr>
                       (int (length bytes))") auto
  then show ?thesis using f ok by blast
qed

lemma extract_glyphs_Inr_valid:
  assumes "extract_glyphs a chars loaded = Inr gs"
  shows "utf8_validate chars (view_of chars) = Inr True"
proof (cases "utf8_validate chars (view_of chars)")
  case (Inl e)
  then show ?thesis using assms by (simp add: extract_glyphs_def)
next
  case (Inr b)
  then show ?thesis using assms by (cases b) (simp_all add: extract_glyphs_def)
qed

lemma legend_alloc_room:
  assumes "int (length bytes) + k + 15 \<le> ARENA_CAPACITY" "0 \<le> k"
  shows "\<exists>p a1. arena_alloc \<lparr>begin_ptr = arena_memory, end_ptr = arena_memory + ARENA_CAPACITY\<rparr>
                   (int (length bytes)) = Inr (p, a1) \<and> k \<le> memory_remaining a1"
proof (cases "bytes = []")
  case True
  then show ?thesis
    using assms
    by (simp add: arena_alloc_def arena_alloc_aligned_def alignment_ok_default memory_remaining_def)
next
  case False
  then have pos: "0 < int (length bytes)" by simp
  let ?a = "\<lparr>begin_ptr = arena_memory, end_ptr = arena_memory + ARENA_CAPACITY\<rparr>"
  have al: "alignment_ok 16" "(16::int) < 2 ^ 63" by (simp_all add: alignment_ok_def)
  have "16 - 1 + int (length bytes) \<le> memory_remaining ?a"
    using assms by (simp add: memory_remaining_def)
  from alloc_ok [OF pos al this]
  obtain p a1 where "arena_alloc_aligned ?a (int (length bytes)) 16 = Inr (p, a1)"
    and "memory_remaining ?a - (15 + int (length bytes)) \<le> memory_remaining a1"
    by auto
  then show ?thesis
    using assms by (simp add: arena_alloc_def ARENA_DEFAULT_ALIGNMENT_def memory_remaining_def)
qed

lemma main_room:
  assumes "arena_memory \<noteq> NULL" "legend_rest bytes (view_of bytes) xs" "font_ok font"
    and "width font mod 8 = 0" "height font mod 8 = 0"
    and "int (length bytes) + 288 * int (length (filter not_space xs)) + 30 \<le> ARENA_CAPACITY"
  shows "main mem arena_memory (Some (bytes, True)) (Some font)
         = (if length (nonempty_cells font) < length (filter not_space xs)
              then Inl (Exit1 more_chars_message)
            else if length (filter not_space xs) < length (nonempty_cells font)
              then Inl (Exit1 more_glyphs_message)
            else Inr (map2 (glyph_of bytes font) (filter not_space xs) (nonempty_cells font)))"
proof -
  have "int (length bytes) + (15 + 288 * int (length (filter not_space xs))) + 15 \<le> ARENA_CAPACITY"
    using assms(6) by simp
  moreover have "0 \<le> 15 + 288 * int (length (filter not_space xs))" by simp
  ultimately have "\<exists>p a1. arena_alloc \<lparr>begin_ptr = arena_memory, end_ptr = arena_memory + ARENA_CAPACITY\<rparr>
                   (int (length bytes)) = Inr (p, a1)
                   \<and> 15 + 288 * int (length (filter not_space xs)) \<le> memory_remaining a1"
    by (rule legend_alloc_room)
  then
  obtain p a1 where a: "arena_alloc \<lparr>begin_ptr = arena_memory, end_ptr = arena_memory + ARENA_CAPACITY\<rparr>
                   (int (length bytes)) = Inr (p, a1)"
    and r: "15 + 288 * int (length (filter not_space xs)) \<le> memory_remaining a1"
    by blast
  show ?thesis
    unfolding main_read [OF assms(1)]
    by (simp add: a extract_glyphs_room [OF assms(2-5) r])
qed

lemma glyphs_of_encoded:
  assumes "set xs \<subseteq> set (encoded_slices 0 cs)"
  shows "map2 (glyph_of (utf8_encode_all cs) font) xs ne = map2 (legend_glyph font) (map snd xs) ne"
  using assms
proof (induction xs arbitrary: ne)
  case Nil
  show ?case by simp
next
  case (Cons x xs)
  have "x \<in> set (encoded_slices (int (length ([] :: u8 list))) cs)"
    using Cons.prems by simp
  from encoded_slices_bytes [OF this, of "[]"]
  have b: "view_bytes (utf8_encode_all cs) (fst x) = utf8_encode (snd x)" by simp
  show ?case
  proof (cases ne)
    case Nil
    then show ?thesis by simp
  next
    case (Cons cell cells)
    then show ?thesis
      using Cons.IH [of cells] Cons.prems
      by (simp add: glyph_of_def legend_glyph_def b)
  qed
qed

lemma main_encoded:
  assumes "arena_memory \<noteq> NULL" "list_all is_scalar cs" "font_ok font"
    and "width font mod 8 = 0" "height font mod 8 = 0"
    and "int (length (utf8_encode_all cs)) + 288 * int (length (non_space_chars cs)) + 30
           \<le> ARENA_CAPACITY"
  shows "main mem arena_memory (Some (utf8_encode_all cs, True)) (Some font)
         = (if length (nonempty_cells font) < length (non_space_chars cs)
              then Inl (Exit1 more_chars_message)
            else if length (non_space_chars cs) < length (nonempty_cells font)
              then Inl (Exit1 more_glyphs_message)
            else Inr (map2 (legend_glyph font) (non_space_chars cs) (nonempty_cells font)))"
proof -
  let ?xs = "encoded_slices 0 cs"
  note lr = legend_rest_encoded_whole [OF assms(2)]
  have codes: "map snd (filter not_space ?xs) = non_space_chars cs"
    by (simp add: encoded_slices_codes non_space_chars_def)
  then have len: "length (filter not_space ?xs) = length (non_space_chars cs)"
    by (metis length_map)
  have room: "int (length (utf8_encode_all cs)) + 288 * int (length (filter not_space ?xs)) + 30
           \<le> ARENA_CAPACITY"
    using assms(6) len by simp
  have "map2 (glyph_of (utf8_encode_all cs) font) (filter not_space ?xs) (nonempty_cells font)
      = map2 (legend_glyph font) (non_space_chars cs) (nonempty_cells font)"
    using glyphs_of_encoded [of "filter not_space ?xs" cs font "nonempty_cells font"] codes
    by simp
  then show ?thesis
    unfolding main_room [OF assms(1) lr assms(3-5) room] len by simp
qed

lemma map2_nth:
  assumes "length xs = length ys" "i < length ys"
  shows "map2 f xs ys ! i = f (xs ! i) (ys ! i)"
  using assms by simp

text \<open>
  C1, amended. For every image whose width and height are multiples of 8 and every legend
  that is the UTF-8 encoding of Unicode scalar values of which as many are not whitespace
  as there are non-empty cells, and for which the arena has room (the legend's bytes, 288
  bytes for each glyph and 30 bytes of padding fit in \<^verbatim>\<open>ARENA_CAPACITY\<close>), the program
  succeeds, and for every index \<open>i\<close> the \<open>i\<close>-th glyph of the output has the bitmap of
  the \<open>i\<close>-th non-empty cell in row-major order and carries the \<open>i\<close>-th code point of the
  legend that is not whitespace, with its bytes and a final 0 as display string.
\<close>

theorem main_pairs_cells_with_legend:
  assumes "arena_memory \<noteq> NULL"
    and "list_all is_scalar cs"
    and "font_ok font" and "width font mod 8 = 0" and "height font mod 8 = 0"
    and "length (non_space_chars cs) = length (nonempty_cells font)"
    and "int (length (utf8_encode_all cs)) + 288 * int (length (non_space_chars cs)) + 30
           \<le> ARENA_CAPACITY"
  shows "\<exists>gs. main mem arena_memory (Some (utf8_encode_all cs, True)) (Some font) = Inr gs
           \<and> length gs = length (nonempty_cells font)
           \<and> (\<forall>i<length gs.
                 gs ! i = legend_glyph font (non_space_chars cs ! i) (nonempty_cells font ! i))"
proof -
  let ?gs = "map2 (legend_glyph font) (non_space_chars cs) (nonempty_cells font)"
  have m: "main mem arena_memory (Some (utf8_encode_all cs, True)) (Some font) = Inr ?gs"
    unfolding main_encoded [OF assms(1-5,7)] using assms(6) by simp
  have l: "length ?gs = length (nonempty_cells font)"
    using assms(6) by simp
  have "\<forall>i<length ?gs. ?gs ! i = legend_glyph font (non_space_chars cs ! i) (nonempty_cells font ! i)"
    using assms(6) by simp
  then show ?thesis using m l by blast
qed

lemma three_cell_font_cells: "nonempty_cells three_cell_font = [(0, 0), (0, 16)]"
  by code_simp

theorem main_pairs_cells_with_legend_witness:
  "(4096 :: ptr) \<noteq> NULL
   \<and> list_all is_scalar [0x20, 0x41, 0x0a, 0x20AC]
   \<and> font_ok three_cell_font
   \<and> width three_cell_font mod 8 = 0 \<and> height three_cell_font mod 8 = 0
   \<and> non_space_chars [0x20, 0x41, 0x0a, 0x20AC] = [0x41, 0x20AC]
   \<and> nonempty_cells three_cell_font = [(0, 0), (0, 16)]
   \<and> utf8_encode_all [0x20, 0x41, 0x0a, 0x20AC] = [0x20, 0x41, 0x0a, 0xE2, 0x82, 0xAC]
   \<and> main zero_memory 4096 (Some ([0x20, 0x41, 0x0a, 0xE2, 0x82, 0xAC], True)) (Some three_cell_font)
       = Inr [legend_glyph three_cell_font 0x41 (0, 0), legend_glyph three_cell_font 0x20AC (0, 16)]"
proof -
  have n: "(4096 :: ptr) \<noteq> NULL" by (simp add: NULL_def)
  have s: "list_all is_scalar [0x20, 0x41, 0x0a, 0x20AC]" by (simp add: is_scalar_def)
  have f: "font_ok three_cell_font" by code_simp
  have w: "width three_cell_font mod 8 = 0" and h: "height three_cell_font mod 8 = 0"
    by (simp_all add: three_cell_font_def)
  have c: "non_space_chars [0x20, 0x41, 0x0a, 0x20AC] = [0x41, 0x20AC]"
    by (simp add: non_space_chars_def char_is_space_def)
  note cells = three_cell_font_cells
  have e: "utf8_encode_all [0x20, 0x41, 0x0a, 0x20AC] = [0x20, 0x41, 0x0a, 0xE2, 0x82, 0xAC]"
    by (simp add: utf8_encode_all_def utf8_encode_def)
  have l: "length (non_space_chars [0x20, 0x41, 0x0a, 0x20AC]) = length (nonempty_cells three_cell_font)"
    by (simp add: c cells)
  have r: "int (length (utf8_encode_all [0x20, 0x41, 0x0a, 0x20AC]))
             + 288 * int (length (non_space_chars [0x20, 0x41, 0x0a, 0x20AC])) + 30 \<le> ARENA_CAPACITY"
    by (simp add: c e ARENA_CAPACITY_def)
  from main_pairs_cells_with_legend [OF n s f w h l r, of zero_memory]
  obtain gs where m: "main zero_memory 4096 (Some ([0x20, 0x41, 0x0a, 0xE2, 0x82, 0xAC], True))
                        (Some three_cell_font) = Inr gs"
    and lg: "length gs = 2"
    and g: "\<forall>i<length gs. gs ! i = legend_glyph three_cell_font ([0x41, 0x20AC] ! i) ([(0, 0), (0, 16)] ! i)"
    unfolding e c cells by auto
  have "gs = [gs ! 0, gs ! 1]"
    using lg by (intro nth_equalityI) (auto simp: less_Suc_eq numeral_2_eq_2)
  moreover have "gs ! 0 = legend_glyph three_cell_font 0x41 (0, 0)"
    and "gs ! 1 = legend_glyph three_cell_font 0x20AC (0, 16)"
    using g lg by auto
  ultimately have "gs = [legend_glyph three_cell_font 0x41 (0, 0), legend_glyph three_cell_font 0x20AC (0, 16)]"
    by simp
  then show ?thesis
    using n s f w h c cells e m by simp
qed

lemma concat_replicate_single: "concat (replicate n [x]) = replicate n x"
  by (induction n) simp_all

lemma list_all_replicate: "P x \<Longrightarrow> list_all P (replicate n x)"
  by (induction n) simp_all

lemma utf8_encode_all_spaces:
  "utf8_encode_all (replicate n 0x20 @ cs) = replicate n 0x20 @ utf8_encode_all cs"
proof -
  have "utf8_encode 0x20 = [0x20]" by (simp add: utf8_encode_def)
  then show ?thesis
    by (simp add: utf8_encode_all_def concat_replicate_single)
qed

lemma non_space_chars_spaces:
  "non_space_chars (replicate n 0x20 @ cs) = non_space_chars cs"
  by (simp add: non_space_chars_def char_is_space_def)

lemma ink_font_cells: "nonempty_cells ink_font = [(0, 0)]"
  by code_simp

lemma main_on_full_arena:
  assumes "list_all is_scalar cs" "font_ok font" "width font mod 8 = 0" "height font mod 8 = 0"
    and "int (length (utf8_encode_all cs)) = ARENA_CAPACITY"
    and "non_space_chars cs \<noteq> []"
  shows "main mem 65536 (Some (utf8_encode_all cs, True)) (Some font) = Inl ArenaOverflow"
proof -
  let ?xs = "encoded_slices 0 cs"
  let ?full = "\<lparr>begin_ptr = 65536 + ARENA_CAPACITY, end_ptr = 65536 + ARENA_CAPACITY\<rparr>"
  note lr = legend_rest_encoded_whole [OF assms(1)]
  have "map snd (filter not_space ?xs) = non_space_chars cs"
    by (simp add: encoded_slices_codes non_space_chars_def)
  then have "length (filter not_space ?xs) = length (non_space_chars cs)"
    by (metis length_map)
  then have pos: "0 < int (length (filter not_space ?xs))"
    using assms(6) by simp
  have a: "arena_alloc \<lparr>begin_ptr = 65536, end_ptr = 65536 + ARENA_CAPACITY\<rparr>
             (int (length (utf8_encode_all cs))) = Inr (65536, ?full)"
    unfolding assms(5)
    by (simp add: arena_alloc_def arena_alloc_aligned_def alignment_ok_default
          arena_padding_default ARENA_CAPACITY_def)
  have lt: "memory_remaining ?full < int (length (filter not_space ?xs)) * sizeof_Glyph"
    using pos by (simp add: memory_remaining_def sizeof_Glyph_def)
  have al: "ARENA_DEFAULT_ALIGNMENT < 2 ^ 63"
    by (simp add: ARENA_DEFAULT_ALIGNMENT_def)
  have inv: "begin_ptr ?full \<le> end_ptr ?full" by simp
  have b: "arena_alloc ?full (int (length (filter not_space ?xs)) * sizeof_Glyph)
                  = Inl ArenaOverflow"
    unfolding arena_alloc_def
    by (rule alloc_overflow [OF alignment_ok_default al inv lt])
  have n: "(65536 :: ptr) \<noteq> NULL" by (simp add: NULL_def)
  show ?thesis
    unfolding main_read [OF n]
    by (simp add: a extract_glyphs_spec [OF lr assms(2-4)] b)
qed

text \<open>
  C1, as the code has it. A legend of 64 MiB, all spaces but for a final \<open>A\<close>, is valid
  UTF-8 with one character that is not whitespace, and the image of one cell has one
  non-empty cell; the legend fills the arena to its last byte, and the allocation of the
  output array aborts the process.
\<close>

theorem main_arena_exhausted_counterexample:
  "list_all is_scalar (replicate 67108863 0x20 @ [0x41])
   \<and> utf8_encode_all (replicate 67108863 0x20 @ [0x41]) = replicate 67108863 0x20 @ [0x41]
   \<and> font_ok ink_font \<and> width ink_font mod 8 = 0 \<and> height ink_font mod 8 = 0
   \<and> non_space_chars (replicate 67108863 0x20 @ [0x41]) = [0x41]
   \<and> nonempty_cells ink_font = [(0, 0)]
   \<and> main zero_memory 65536 (Some (replicate 67108863 0x20 @ [0x41], True)) (Some ink_font)
       = Inl ArenaOverflow"
proof -
  have s: "list_all is_scalar (replicate 67108863 0x20 @ [0x41])"
    by (simp add: list_all_replicate is_scalar_def)
  have e: "utf8_encode_all (replicate 67108863 0x20 @ [0x41]) = replicate 67108863 0x20 @ [0x41]"
    unfolding utf8_encode_all_spaces by (simp add: utf8_encode_all_def utf8_encode_def)
  have f: "font_ok ink_font" by code_simp
  have w: "width ink_font mod 8 = 0" and h: "height ink_font mod 8 = 0"
    by (simp_all add: ink_font_def)
  have c: "non_space_chars (replicate 67108863 0x20 @ [0x41]) = [0x41]"
    unfolding non_space_chars_spaces by (simp add: non_space_chars_def char_is_space_def)
  have l: "int (length (utf8_encode_all (replicate 67108863 0x20 @ [0x41]))) = ARENA_CAPACITY"
    unfolding e by (simp add: ARENA_CAPACITY_def)
  have ne: "non_space_chars (replicate 67108863 0x20 @ [0x41]) \<noteq> []"
    unfolding c by simp
  have "main zero_memory 65536 (Some (replicate 67108863 0x20 @ [0x41], True)) (Some ink_font)
       = Inl ArenaOverflow"
    using main_on_full_arena [OF s f w h l ne, of zero_memory] unfolding e .
  then show ?thesis
    using s e f w h c ink_font_cells by simp
qed

subsection \<open>Where the errors come from\<close>

lemma read_u8_error: "read_u8 mem i = Inl e \<Longrightarrow> e = OutOfBounds"
  by (simp add: read_u8_def split: if_splits)

lemma bind_err_Inl:
  assumes "bind_err m f = Inl e"
  shows "m = Inl e \<or> (\<exists>x. m = Inr x \<and> f x = Inl e)"
  using assms by (cases m) simp_all

lemma utf8_chop_char_error:
  assumes "utf8_chop_char mem string = Inl e"
  shows "e = OutOfBounds \<or> e = Unreachable"
  using assms unfolding utf8_chop_char_def Let_def
  by (auto dest!: bind_err_Inl read_u8_error split: if_splits)

lemma glyph_is_empty_x_error:
  "glyph_is_empty_x font ls flag x = Inl e \<Longrightarrow> e = OutOfBounds"
proof (induction font ls flag x rule: glyph_is_empty_x.induct)
  case (1 font ls flag x)
  show ?case
  proof (cases "flag \<and> x < GLYPH_WIDTH")
    case False
    then show ?thesis
      using "1.prems" by (subst (asm) glyph_is_empty_x.simps) auto
  next
    case True
    show ?thesis
    proof (cases "read_u8 (data font) (ls + x * bytes_per_color font)")
      case (Inl e')
      then have "e = e'"
        using "1.prems" True by (subst (asm) glyph_is_empty_x.simps) simp
      then show ?thesis
        using Inl by (auto dest: read_u8_error)
    next
      case (Inr v)
      have "glyph_is_empty_x font ls (if v = 0x00 then False else flag) (x + 1) = Inl e"
        using "1.prems" True Inr by (subst (asm) glyph_is_empty_x.simps) simp
      then show ?thesis
        using "1.IH" [OF True Inr] by simp
    qed
  qed
qed

lemma glyph_is_empty_y_error:
  "glyph_is_empty_y font ls flag y = Inl e \<Longrightarrow> e = OutOfBounds"
proof (induction font ls flag y rule: glyph_is_empty_y.induct)
  case (1 font ls flag y)
  show ?case
  proof (cases "flag \<and> y < GLYPH_HEIGHT")
    case False
    then show ?thesis
      using "1.prems" by (subst (asm) glyph_is_empty_y.simps) auto
  next
    case True
    show ?thesis
    proof (cases "glyph_is_empty_x font ls flag 0")
      case (Inl e')
      then have "e = e'"
        using "1.prems" True by (subst (asm) glyph_is_empty_y.simps) simp
      then show ?thesis
        using Inl by (auto dest: glyph_is_empty_x_error)
    next
      case (Inr v)
      have "glyph_is_empty_y font (ls + width font * bytes_per_color font) v (y + 1) = Inl e"
        using "1.prems" True Inr by (subst (asm) glyph_is_empty_y.simps) simp
      then show ?thesis
        using "1.IH" [OF True Inr] by simp
    qed
  qed
qed

lemma expand_x_error:
  "expand_x font ls y bm x = Inl e \<Longrightarrow> e = OutOfBounds"
proof (induction font ls y bm x rule: expand_x.induct)
  case (1 font ls y bm x)
  show ?case
  proof (cases "x < GLYPH_WIDTH")
    case False
    then show ?thesis
      using "1.prems" by (subst (asm) expand_x.simps) auto
  next
    case True
    show ?thesis
    proof (cases "read_u8 (data font) (ls + x * bytes_per_color font)")
      case (Inl e')
      then have "e = e'"
        using "1.prems" True by (subst (asm) expand_x.simps) simp
      then show ?thesis
        using Inl by (auto dest: read_u8_error)
    next
      case (Inr v)
      have "expand_x font ls y (if v = 0x00 then bm[nat (y * GLYPH_WIDTH + x) := 0xff000000] else bm[nat (y * GLYPH_WIDTH + x) := 0x00000000]) (x + 1) = Inl e"
        using "1.prems" True Inr by (subst (asm) expand_x.simps) simp
      then show ?thesis
        using "1.IH" [OF True Inr] by simp
    qed
  qed
qed

lemma expand_y_error:
  "expand_y font ls bm y = Inl e \<Longrightarrow> e = OutOfBounds"
proof (induction font ls bm y rule: expand_y.induct)
  case (1 font ls bm y)
  show ?case
  proof (cases "y < GLYPH_HEIGHT")
    case False
    then show ?thesis
      using "1.prems" by (subst (asm) expand_y.simps) auto
  next
    case True
    show ?thesis
    proof (cases "expand_x font ls y bm 0")
      case (Inl e')
      then have "e = e'"
        using "1.prems" True by (subst (asm) expand_y.simps) simp
      then show ?thesis
        using Inl by (auto dest: expand_x_error)
    next
      case (Inr v)
      have "expand_y font (ls + width font * bytes_per_color font) v (y + 1) = Inl e"
        using "1.prems" True Inr by (subst (asm) expand_y.simps) simp
      then show ?thesis
        using "1.IH" [OF True Inr] by simp
    qed
  qed
qed

lemma next_font_char_error:
  "next_font_char mem it = Inl e \<Longrightarrow> e = OutOfBounds \<or> e = Unreachable"
proof (induction mem it rule: next_font_char.induct)
  case (1 mem it)
  show ?case
  proof (cases "utf8_chop_char mem it")
    case (Inl e')
    then have "e = e'"
      using "1.prems" by (subst (asm) next_font_char.simps) simp
    then show ?thesis
      using Inl by (auto dest: utf8_chop_char_error)
  next
    case (Inr v)
    obtain r it' c where v: "v = (r, it', c)" by (cases v)
    show ?thesis
    proof (cases "char_is_space c")
      case True
      have "next_font_char mem it' = Inl e"
        using "1.prems" True Inr v by (subst (asm) next_font_char.simps) simp
      then show ?thesis
        using "1.IH" [OF Inr [unfolded v] refl refl True] by simp
    next
      case False
      then show ?thesis
        using "1.prems" Inr v by (subst (asm) next_font_char.simps) simp
    qed
  qed
qed

lemma arena_alloc_aligned_error:
  "arena_alloc_aligned a sz al = Inl e \<Longrightarrow> e = AssertFailed \<or> e = ArenaOverflow"
  by (auto simp: arena_alloc_aligned_def Let_def split: if_splits)

lemma cell_step_exit:
  assumes "cell_step chars font n gy gx st = Inl (Exit1 m)"
  shows "int (length (st_glyphs st)) = n \<and> m = more_glyphs_message"
  using assms unfolding cell_step_def Let_def
  by (auto dest!: bind_err_Inl glyph_is_empty_y_error next_font_char_error
        arena_alloc_aligned_error expand_y_error split: if_splits)

lemma scan_loop_room:
  assumes "legend_rest chars (view_of chars) xs" "font_ok font"
    and "width font mod 8 = 0" "height font mod 8 = 0"
    and "264 * int (length (filter not_space xs)) \<le> memory_remaining a"
  shows "length (filter not_space xs) < length (nonempty_cells font) \<Longrightarrow>
           grid_y_loop chars font (int (length (filter not_space xs))) 0 (scan_start chars a)
             = Inl (Exit1 more_glyphs_message)"
    and "length (nonempty_cells font) \<le> length (filter not_space xs) \<Longrightarrow>
           \<exists>st. grid_y_loop chars font (int (length (filter not_space xs))) 0 (scan_start chars a) = Inr st
             \<and> st_glyphs st = map2 (glyph_of chars font) (filter not_space xs) (nonempty_cells font)"
proof -
  let ?ns = "filter not_space xs" and ?ne = "nonempty_cells font"
  let ?run = "run_cells chars font (int (length ?ns)) (grid_cells font) (scan_start chars a)"
  have inf: "\<forall>cell\<in>set (grid_cells font). cell_in_font font cell"
    using grid_cells_in_font assms(2-4) by (simp add: font_ok_def)
  have sz: "\<forall>x\<in>set ?ns. 1 \<le> sv_size (fst x) \<and> sv_size (fst x) \<le> 4"
    using legend_rest_sizes [OF assms(1)] by simp
  have "bind_err ?run (\<lambda>st'. Inr (st_glyphs st')) = scan_result chars font ?ns ?ne [] a"
    using run_cells_spec [OF assms(2) inf, of chars "scan_start chars a" xs "int (length ?ns)"] assms(1)
    by (simp add: nonempty_cells_def scan_start_def)
  then have r: "bind_err ?run (\<lambda>st'. Inr (st_glyphs st'))
                  = (if length ?ne \<le> length ?ns then Inr (map2 (glyph_of chars font) ?ns ?ne)
                     else Inl (Exit1 more_glyphs_message))"
    by (simp add: scan_result_room [OF sz assms(5)])
  show "length ?ns < length ?ne \<Longrightarrow>
           grid_y_loop chars font (int (length ?ns)) 0 (scan_start chars a)
             = Inl (Exit1 more_glyphs_message)"
    using r by (cases ?run) (simp_all add: grid_y_loop_grid_cells)
  show "length ?ne \<le> length ?ns \<Longrightarrow>
           \<exists>st. grid_y_loop chars font (int (length ?ns)) 0 (scan_start chars a) = Inr st
             \<and> st_glyphs st = map2 (glyph_of chars font) ?ns ?ne"
    using r by (cases ?run) (simp_all add: grid_y_loop_grid_cells)
qed

text \<open>
  C9, amended. If the number of non-empty cells differs from the number of legend code
  points that are not whitespace, and the arena has room, the process exits with code 1
  and no glyph is printed. When the cells are more, the loops over the grid themselves
  return the error (for every arena with room for the glyphs), and the body of the
  loops returns it only in a state whose output array is full; when the characters are
  more, the loops run to their end with as many glyphs as there are non-empty cells, and
  the error comes from the check after them.
\<close>

theorem count_mismatch_exits_1:
  assumes "arena_memory \<noteq> NULL"
    and "list_all is_scalar cs"
    and "font_ok font" and "width font mod 8 = 0" and "height font mod 8 = 0"
    and "length (non_space_chars cs) \<noteq> length (nonempty_cells font)"
    and "int (length (utf8_encode_all cs)) + 288 * int (length (non_space_chars cs)) + 30
           \<le> ARENA_CAPACITY"
  shows "exit_code (main mem arena_memory (Some (utf8_encode_all cs, True)) (Some font)) = Some 1
       \<and> (length (non_space_chars cs) < length (nonempty_cells font) \<longrightarrow>
            main mem arena_memory (Some (utf8_encode_all cs, True)) (Some font)
              = Inl (Exit1 more_glyphs_message)
            \<and> (\<forall>a. 264 * int (length (non_space_chars cs)) \<le> memory_remaining a \<longrightarrow>
                  grid_y_loop (utf8_encode_all cs) font (int (length (non_space_chars cs))) 0
                      (scan_start (utf8_encode_all cs) a)
                    = Inl (Exit1 more_glyphs_message)))
       \<and> (length (nonempty_cells font) < length (non_space_chars cs) \<longrightarrow>
            main mem arena_memory (Some (utf8_encode_all cs, True)) (Some font)
              = Inl (Exit1 more_chars_message)
            \<and> (\<forall>a. 264 * int (length (non_space_chars cs)) \<le> memory_remaining a \<longrightarrow>
                  (\<exists>st. grid_y_loop (utf8_encode_all cs) font (int (length (non_space_chars cs))) 0
                           (scan_start (utf8_encode_all cs) a) = Inr st
                        \<and> length (st_glyphs st) = length (nonempty_cells font))))
       \<and> (\<forall>n gy gx st message.
            cell_step (utf8_encode_all cs) font n gy gx st = Inl (Exit1 message) \<longrightarrow>
              int (length (st_glyphs st)) = n \<and> message = more_glyphs_message)"
proof -
  let ?chars = "utf8_encode_all cs"
  let ?xs = "encoded_slices 0 cs"
  let ?ne = "nonempty_cells font"
  note m = main_encoded [OF assms(1-5,7), of mem]
  note lr = legend_rest_encoded_whole [OF assms(2)]
  have "map snd (filter not_space ?xs) = non_space_chars cs"
    by (simp add: encoded_slices_codes non_space_chars_def)
  then have len: "length (filter not_space ?xs) = length (non_space_chars cs)"
    by (metis length_map)
  have ex: "exit_code (main mem arena_memory (Some (?chars, True)) (Some font)) = Some 1"
    using assms(6) by (simp add: m exit_code_def)
  have more_cells: "length (non_space_chars cs) < length ?ne \<longrightarrow>
            main mem arena_memory (Some (?chars, True)) (Some font) = Inl (Exit1 more_glyphs_message)
            \<and> (\<forall>a. 264 * int (length (non_space_chars cs)) \<le> memory_remaining a \<longrightarrow>
                  grid_y_loop ?chars font (int (length (non_space_chars cs))) 0 (scan_start ?chars a)
                    = Inl (Exit1 more_glyphs_message))"
  proof (intro impI conjI allI)
    assume lt: "length (non_space_chars cs) < length ?ne"
    then show "main mem arena_memory (Some (?chars, True)) (Some font) = Inl (Exit1 more_glyphs_message)"
      by (simp add: m)
    fix a assume "264 * int (length (non_space_chars cs)) \<le> memory_remaining a"
    then have r: "264 * int (length (filter not_space ?xs)) \<le> memory_remaining a"
      using len by simp
    show "grid_y_loop ?chars font (int (length (non_space_chars cs))) 0 (scan_start ?chars a)
            = Inl (Exit1 more_glyphs_message)"
      using scan_loop_room(1) [OF lr assms(3-5) r] lt len by simp
  qed
  have more_chars: "length ?ne < length (non_space_chars cs) \<longrightarrow>
            main mem arena_memory (Some (?chars, True)) (Some font) = Inl (Exit1 more_chars_message)
            \<and> (\<forall>a. 264 * int (length (non_space_chars cs)) \<le> memory_remaining a \<longrightarrow>
                  (\<exists>st. grid_y_loop ?chars font (int (length (non_space_chars cs))) 0
                           (scan_start ?chars a) = Inr st
                        \<and> length (st_glyphs st) = length ?ne))"
  proof (intro impI conjI allI)
    assume lt: "length ?ne < length (non_space_chars cs)"
    then show "main mem arena_memory (Some (?chars, True)) (Some font) = Inl (Exit1 more_chars_message)"
      by (simp add: m)
    fix a assume "264 * int (length (non_space_chars cs)) \<le> memory_remaining a"
    then have r: "264 * int (length (filter not_space ?xs)) \<le> memory_remaining a"
      using len by simp
    have "length ?ne \<le> length (filter not_space ?xs)" using lt len by simp
    from scan_loop_room(2) [OF lr assms(3-5) r this]
    obtain st where "grid_y_loop ?chars font (int (length (filter not_space ?xs))) 0
                       (scan_start ?chars a) = Inr st"
      and "st_glyphs st = map2 (glyph_of ?chars font) (filter not_space ?xs) ?ne"
      by blast
    then show "\<exists>st. grid_y_loop ?chars font (int (length (non_space_chars cs))) 0
                           (scan_start ?chars a) = Inr st
                        \<and> length (st_glyphs st) = length ?ne"
      using lt len by (intro exI [of _ st]) simp
  qed
  have full: "\<forall>n gy gx st message.
            cell_step ?chars font n gy gx st = Inl (Exit1 message) \<longrightarrow>
              int (length (st_glyphs st)) = n \<and> message = more_glyphs_message"
    using cell_step_exit by blast
  show ?thesis
    using ex more_cells more_chars full by blast
qed

theorem count_mismatch_exits_1_witness:
  "(4096 :: ptr) \<noteq> NULL
   \<and> list_all is_scalar [0x41] \<and> list_all is_scalar [0x41, 0x42, 0x43]
   \<and> font_ok three_cell_font
   \<and> width three_cell_font mod 8 = 0 \<and> height three_cell_font mod 8 = 0
   \<and> nonempty_cells three_cell_font = [(0, 0), (0, 16)]
   \<and> non_space_chars [0x41] = [0x41]
   \<and> non_space_chars [0x41, 0x42, 0x43] = [0x41, 0x42, 0x43]
   \<and> utf8_encode_all [0x41] = [0x41]
   \<and> utf8_encode_all [0x41, 0x42, 0x43] = [0x41, 0x42, 0x43]
   \<and> main zero_memory 4096 (Some ([0x41], True)) (Some three_cell_font)
       = Inl (Exit1 more_glyphs_message)
   \<and> exit_code (main zero_memory 4096 (Some ([0x41], True)) (Some three_cell_font)) = Some 1
   \<and> grid_y_loop [0x41] three_cell_font 1 0 (scan_start [0x41] \<lparr>begin_ptr = 4096, end_ptr = 8192\<rparr>)
       = Inl (Exit1 more_glyphs_message)
   \<and> main zero_memory 4096 (Some ([0x41, 0x42, 0x43], True)) (Some three_cell_font)
       = Inl (Exit1 more_chars_message)
   \<and> exit_code (main zero_memory 4096 (Some ([0x41, 0x42, 0x43], True)) (Some three_cell_font)) = Some 1"
proof -
  have n: "(4096 :: ptr) \<noteq> NULL" by (simp add: NULL_def)
  have s1: "list_all is_scalar [0x41]" and s3: "list_all is_scalar [0x41, 0x42, 0x43]"
    by (simp_all add: is_scalar_def)
  have f: "font_ok three_cell_font" by code_simp
  have w: "width three_cell_font mod 8 = 0" and h: "height three_cell_font mod 8 = 0"
    by (simp_all add: three_cell_font_def)
  note cells = three_cell_font_cells
  have c1: "non_space_chars [0x41] = [0x41]"
    and c3: "non_space_chars [0x41, 0x42, 0x43] = [0x41, 0x42, 0x43]"
    by (simp_all add: non_space_chars_def char_is_space_def)
  have e1: "utf8_encode_all [0x41] = [0x41]"
    and e3: "utf8_encode_all [0x41, 0x42, 0x43] = [0x41, 0x42, 0x43]"
    by (simp_all add: utf8_encode_all_def utf8_encode_def)
  have d1: "length (non_space_chars [0x41]) \<noteq> length (nonempty_cells three_cell_font)"
    and d3: "length (non_space_chars [0x41, 0x42, 0x43]) \<noteq> length (nonempty_cells three_cell_font)"
    by (simp_all add: c1 c3 cells)
  have r1: "int (length (utf8_encode_all [0x41])) + 288 * int (length (non_space_chars [0x41])) + 30
              \<le> ARENA_CAPACITY"
    and r3: "int (length (utf8_encode_all [0x41, 0x42, 0x43]))
               + 288 * int (length (non_space_chars [0x41, 0x42, 0x43])) + 30 \<le> ARENA_CAPACITY"
    by (simp_all add: c1 c3 e1 e3 ARENA_CAPACITY_def)
  have room: "264 * int (length (non_space_chars [0x41]))
                \<le> memory_remaining \<lparr>begin_ptr = 4096, end_ptr = 8192\<rparr>"
    by (simp add: c1 memory_remaining_def)
  note t1 = count_mismatch_exits_1 [OF n s1 f w h d1 r1, of zero_memory, unfolded e1 c1 cells, simplified]
  note t3 = count_mismatch_exits_1 [OF n s3 f w h d3 r3, of zero_memory, unfolded e3 c3 cells, simplified]
  have room': "264 \<le> memory_remaining \<lparr>begin_ptr = 4096, end_ptr = 8192\<rparr>"
    by (simp add: memory_remaining_def)
  have a: "main zero_memory 4096 (Some ([0x41], True)) (Some three_cell_font)
             = Inl (Exit1 more_glyphs_message)"
    and b: "exit_code (main zero_memory 4096 (Some ([0x41], True)) (Some three_cell_font)) = Some 1"
    and g: "grid_y_loop [0x41] three_cell_font 1 0 (scan_start [0x41] \<lparr>begin_ptr = 4096, end_ptr = 8192\<rparr>)
              = Inl (Exit1 more_glyphs_message)"
    using t1 room' by blast+
  have c: "main zero_memory 4096 (Some ([0x41, 0x42, 0x43], True)) (Some three_cell_font)
             = Inl (Exit1 more_chars_message)"
    and d: "exit_code (main zero_memory 4096 (Some ([0x41, 0x42, 0x43], True)) (Some three_cell_font))
             = Some 1"
    using t3 by blast+
  show ?thesis
    using n s1 s3 f w h cells c1 c3 e1 e3 a b g c d by simp
qed

text \<open>
  C9, as the code has it. With a legend of 64 MiB that ends in \<open>AB\<close> and an image of one
  non-empty cell the counts differ, yet the process does not exit with code 1: the
  allocation of the output array aborts it.
\<close>

theorem count_mismatch_aborts_counterexample:
  "list_all is_scalar (replicate 67108862 0x20 @ [0x41, 0x42])
   \<and> utf8_encode_all (replicate 67108862 0x20 @ [0x41, 0x42])
       = replicate 67108862 0x20 @ [0x41, 0x42]
   \<and> font_ok ink_font \<and> width ink_font mod 8 = 0 \<and> height ink_font mod 8 = 0
   \<and> non_space_chars (replicate 67108862 0x20 @ [0x41, 0x42]) = [0x41, 0x42]
   \<and> nonempty_cells ink_font = [(0, 0)]
   \<and> main zero_memory 65536 (Some (replicate 67108862 0x20 @ [0x41, 0x42], True)) (Some ink_font)
       = Inl ArenaOverflow
   \<and> exit_code (main zero_memory 65536
                   (Some (replicate 67108862 0x20 @ [0x41, 0x42], True)) (Some ink_font)) = None"
proof -
  have s: "list_all is_scalar (replicate 67108862 0x20 @ [0x41, 0x42])"
    by (simp add: list_all_replicate is_scalar_def)
  have e: "utf8_encode_all (replicate 67108862 0x20 @ [0x41, 0x42])
             = replicate 67108862 0x20 @ [0x41, 0x42]"
    unfolding utf8_encode_all_spaces by (simp add: utf8_encode_all_def utf8_encode_def)
  have f: "font_ok ink_font" by code_simp
  have w: "width ink_font mod 8 = 0" and h: "height ink_font mod 8 = 0"
    by (simp_all add: ink_font_def)
  have c: "non_space_chars (replicate 67108862 0x20 @ [0x41, 0x42]) = [0x41, 0x42]"
    unfolding non_space_chars_spaces by (simp add: non_space_chars_def char_is_space_def)
  have l: "int (length (utf8_encode_all (replicate 67108862 0x20 @ [0x41, 0x42]))) = ARENA_CAPACITY"
    unfolding e by (simp add: ARENA_CAPACITY_def)
  have ne: "non_space_chars (replicate 67108862 0x20 @ [0x41, 0x42]) \<noteq> []"
    unfolding c by simp
  have m: "main zero_memory 65536 (Some (replicate 67108862 0x20 @ [0x41, 0x42], True)) (Some ink_font)
       = Inl ArenaOverflow"
    using main_on_full_arena [OF s f w h l ne, of zero_memory] unfolding e .
  show ?thesis
    using s e f w h c ink_font_cells m by (simp add: exit_code_def)
qed

subsection \<open>The bitmaps\<close>

lemma cell_bitmap_nth:
  assumes "y < 8" "x < 8"
  shows "cell_bitmap font cell ! (y * 8 + x)
         = (if cell_pixel font cell (int y) (int x) = 0x00 then 0xff000000 else 0x00000000)"
proof -
  have k: "y * 8 + x < 64" using assms by simp
  have "(y * 8 + x) div 8 = y" "(y * 8 + x) mod 8 = x"
    using assms by simp_all
  then show ?thesis
    using k by (simp add: cell_bitmap_def)
qed

lemma cell_bitmap_ink:
  assumes "cell_nonempty font cell"
  shows "0xff000000 \<in> set (cell_bitmap font cell)"
proof -
  from assms obtain y x :: nat where yx: "y < 8" "x < 8"
    and p: "cell_pixel font cell (int y) (int x) = 0"
    by (auto simp: cell_nonempty_def list_ex_iff)
  have "y * 8 + x < length (cell_bitmap font cell)"
    using yx by (simp add: cell_bitmap_def)
  moreover have "cell_bitmap font cell ! (y * 8 + x) = 0xff000000"
    using cell_bitmap_nth [OF yx] p by simp
  ultimately show ?thesis
    by (metis nth_mem)
qed

lemma cell_step_glyph:
  assumes "font_ok font" "cell_in_font font cell"
    and "cell_step chars font n (fst cell) (snd cell) st = Inr st'"
  shows "(\<not> cell_nonempty font cell \<longrightarrow> st_glyphs st' = st_glyphs st)
       \<and> (cell_nonempty font cell \<longrightarrow>
            (\<exists>g. st_glyphs st' = st_glyphs st @ [g] \<and> bitmap g = cell_bitmap font cell))"
  using assms(3)
  unfolding cell_step_def Let_def glyph_is_empty_cell [OF assms(1,2)] expand_cell [OF assms(1,2)]
  by (auto simp: bind_err_def split: sum.splits if_splits prod.splits)

lemma three_cell_main:
  "main zero_memory 4096 (Some ([0x41, 0x20, 0x42], True)) (Some three_cell_font)
     = Inr [legend_glyph three_cell_font 0x41 (0, 0), legend_glyph three_cell_font 0x42 (0, 16)]"
  by code_simp

lemma three_cell_step:
  "cell_step [0x41, 0x20, 0x42] three_cell_font 2 0 0
         \<lparr>st_glyphs = [], st_font_char_iter = view_of [0x41, 0x20, 0x42],
          st_arena = \<lparr>begin_ptr = 4096, end_ptr = 8192\<rparr>\<rparr>
   = Inr \<lparr>st_glyphs = [legend_glyph three_cell_font 0x41 (0, 0)],
          st_font_char_iter = \<lparr>sv_data = 1, sv_size = 2\<rparr>,
          st_arena = \<lparr>begin_ptr = 4356, end_ptr = 8192\<rparr>\<rparr>"
  by code_simp

text \<open>
  C2. Let the font image be well formed. Whenever the step of the scan at a cell of the
  image returns, it has appended exactly one glyph if the cell is not empty and none if it
  is empty, and the bitmap of the appended glyph has 64 entries, holds at each position
  \<open>(y, x)\<close> the value \<open>0xFF000000\<close> exactly when the first channel byte of that pixel of
  the cell is \<open>0x00\<close> and \<open>0x00000000\<close> otherwise, and contains \<open>0xFF000000\<close> at least
  once. Whenever the whole program succeeds, it has produced one glyph for each non-empty
  cell, in their order, and the bitmap of each glyph relates to the pixels of its cell in
  the same way.
\<close>

theorem glyph_bitmap_follows_color_key:
  assumes "font_ok font"
  shows "(\<forall>chars n cell st st'.
            cell_in_font font cell
            \<and> cell_step chars font n (fst cell) (snd cell) st = Inr st' \<longrightarrow>
              (if cell_nonempty font cell then
                 \<exists>g. st_glyphs st' = st_glyphs st @ [g]
                   \<and> length (bitmap g) = 64
                   \<and> (\<forall>y<8. \<forall>x<8.
                        bitmap g ! (y * 8 + x)
                          = (if cell_pixel font cell (int y) (int x) = 0x00
                             then 0xff000000 else 0x00000000))
                   \<and> 0xff000000 \<in> set (bitmap g)
               else st_glyphs st' = st_glyphs st))
       \<and> (\<forall>mem arena_memory legend gs.
            main mem arena_memory legend (Some font) = Inr gs \<longrightarrow>
              length gs = length (nonempty_cells font)
              \<and> (\<forall>i<length gs. \<forall>y<8. \<forall>x<8.
                   bitmap (gs ! i) ! (y * 8 + x)
                     = (if cell_pixel font (nonempty_cells font ! i) (int y) (int x) = 0x00
                        then 0xff000000 else 0x00000000))
              \<and> (\<forall>i<length gs. length (bitmap (gs ! i)) = 64
                                 \<and> 0xff000000 \<in> set (bitmap (gs ! i))))"
proof (intro conjI allI impI)
  fix chars n cell st st'
  assume a: "cell_in_font font cell \<and> cell_step chars font n (fst cell) (snd cell) st = Inr st'"
  note g = cell_step_glyph [OF assms conjunct1 [OF a] conjunct2 [OF a]]
  show "if cell_nonempty font cell then
          \<exists>g. st_glyphs st' = st_glyphs st @ [g]
            \<and> length (bitmap g) = 64
            \<and> (\<forall>y<8. \<forall>x<8.
                 bitmap g ! (y * 8 + x)
                   = (if cell_pixel font cell (int y) (int x) = 0x00
                      then 0xff000000 else 0x00000000))
            \<and> 0xff000000 \<in> set (bitmap g)
        else st_glyphs st' = st_glyphs st"
  proof (cases "cell_nonempty font cell")
    case True
    with g obtain g0 where g0: "st_glyphs st' = st_glyphs st @ [g0]"
      and b: "bitmap g0 = cell_bitmap font cell"
      by blast
    have "length (bitmap g0) = 64" using b by (simp add: cell_bitmap_def)
    moreover have "\<forall>y<8. \<forall>x<8.
                 bitmap g0 ! (y * 8 + x)
                   = (if cell_pixel font cell (int y) (int x) = 0x00
                      then 0xff000000 else 0x00000000)"
      using b cell_bitmap_nth by simp
    moreover have "0xff000000 \<in> set (bitmap g0)"
      using b cell_bitmap_ink [OF True] by simp
    ultimately show ?thesis using True g0 by auto
  next
    case False
    then show ?thesis using g by simp
  qed
next
  fix mem arena_memory legend gs
  assume m: "main mem arena_memory legend (Some font) = Inr gs"
  from main_Inr [OF m]
  obtain bytes a where ex: "extract_glyphs a bytes (Some font) = Inr gs"
    by blast
  from legend_rest_start [OF extract_glyphs_Inr_valid [OF ex]]
  obtain xs where lr: "legend_rest bytes (view_of bytes) xs"
    by blast
  let ?ns = "filter not_space xs" and ?ne = "nonempty_cells font"
  from extract_glyphs_Inr [OF lr assms ex]
  have len: "length ?ne = length ?ns" and gs: "gs = map2 (glyph_of bytes font) ?ns ?ne"
    by simp_all
  have l: "length gs = length ?ne"
    using gs len by simp
  have b: "\<And>i. i < length gs \<Longrightarrow> bitmap (gs ! i) = cell_bitmap font (?ne ! i)"
    using gs len by (simp add: glyph_of_def)
  have ne: "\<And>i. i < length gs \<Longrightarrow> cell_nonempty font (?ne ! i)"
  proof -
    fix i assume "i < length gs"
    then have "?ne ! i \<in> set ?ne" using l by simp
    then show "cell_nonempty font (?ne ! i)" by (simp add: nonempty_cells_def)
  qed
  show "length gs = length ?ne" by (rule l)
  {
    fix i y x :: nat
    assume "i < length gs" "y < 8" "x < 8"
    then show "bitmap (gs ! i) ! (y * 8 + x)
              = (if cell_pixel font (?ne ! i) (int y) (int x) = 0x00
                 then 0xff000000 else 0x00000000)"
      using b cell_bitmap_nth by simp
  }
  {
    fix i assume "i < length gs"
    then show "length (bitmap (gs ! i)) = 64"
      using b by (simp add: cell_bitmap_def)
  }
  {
    fix i assume "i < length gs"
    then show "0xff000000 \<in> set (bitmap (gs ! i))"
      using b ne cell_bitmap_ink by simp
  }
qed

theorem glyph_bitmap_follows_color_key_witness:
  "font_ok three_cell_font
   \<and> cell_in_font three_cell_font (0, 0)
   \<and> cell_nonempty three_cell_font (0, 0)
   \<and> cell_step [0x41, 0x20, 0x42] three_cell_font 2 0 0
         \<lparr>st_glyphs = [], st_font_char_iter = view_of [0x41, 0x20, 0x42],
          st_arena = \<lparr>begin_ptr = 4096, end_ptr = 8192\<rparr>\<rparr>
       = Inr \<lparr>st_glyphs = [legend_glyph three_cell_font 0x41 (0, 0)],
              st_font_char_iter = \<lparr>sv_data = 1, sv_size = 2\<rparr>,
              st_arena = \<lparr>begin_ptr = 4356, end_ptr = 8192\<rparr>\<rparr>
   \<and> cell_pixel three_cell_font (0, 0) 5 0 = 0
   \<and> bitmap (legend_glyph three_cell_font 0x41 (0, 0)) ! (5 * 8 + 0) = 0xff000000
   \<and> main zero_memory 4096 (Some ([0x41, 0x20, 0x42], True)) (Some three_cell_font)
     = Inr [legend_glyph three_cell_font 0x41 (0, 0), legend_glyph three_cell_font 0x42 (0, 16)]
   \<and> nonempty_cells three_cell_font = [(0, 0), (0, 16)]
   \<and> cell_pixel three_cell_font (0, 16) 3 7 = 0
   \<and> bitmap (legend_glyph three_cell_font 0x42 (0, 16)) ! (3 * 8 + 7) = 0xff000000
   \<and> cell_pixel three_cell_font (0, 16) 3 6 = 0xff
   \<and> bitmap (legend_glyph three_cell_font 0x42 (0, 16)) ! (3 * 8 + 6) = 0x00000000
   \<and> 0xff000000 \<in> set (bitmap (legend_glyph three_cell_font 0x42 (0, 16)))"
proof -
  let ?gs = "[legend_glyph three_cell_font 0x41 (0, 0), legend_glyph three_cell_font 0x42 (0, 16)]"
  let ?st = "\<lparr>st_glyphs = [], st_font_char_iter = view_of [0x41, 0x20, 0x42],
              st_arena = \<lparr>begin_ptr = 4096, end_ptr = 8192\<rparr>\<rparr>"
  let ?st' = "\<lparr>st_glyphs = [legend_glyph three_cell_font 0x41 (0, 0)],
               st_font_char_iter = \<lparr>sv_data = 1, sv_size = 2\<rparr>,
               st_arena = \<lparr>begin_ptr = 4356, end_ptr = 8192\<rparr>\<rparr>"
  note m = three_cell_main
  note s = three_cell_step
  have f: "font_ok three_cell_font" by code_simp
  have c: "cell_in_font three_cell_font (0, 0)" by code_simp
  have n: "cell_nonempty three_cell_font (0, 0)" by code_simp
  note t = glyph_bitmap_follows_color_key [OF f]
  have p0: "cell_pixel three_cell_font (0, 0) 5 0 = 0" by code_simp
  have p7: "cell_pixel three_cell_font (0, 16) 3 7 = 0" by code_simp
  have p6: "cell_pixel three_cell_font (0, 16) 3 6 = 0xff" by code_simp
  have cs: "cell_in_font three_cell_font (0, 0)
        \<and> cell_step [0x41, 0x20, 0x42] three_cell_font 2 (fst (0, 0)) (snd (0, 0)) ?st = Inr ?st'"
    using c s by simp
  note t1 = t [THEN conjunct1, rule_format, OF cs]
  from t1 n have "\<exists>g. st_glyphs ?st' = st_glyphs ?st @ [g]
                   \<and> length (bitmap g) = 64
                   \<and> (\<forall>y<8. \<forall>x<8.
                        bitmap g ! (y * 8 + x)
                          = (if cell_pixel three_cell_font (0, 0) (int y) (int x) = 0x00
                             then 0xff000000 else 0x00000000))
                   \<and> 0xff000000 \<in> set (bitmap g)"
    by (simp only: if_True)
  then obtain g where g1: "st_glyphs ?st' = st_glyphs ?st @ [g]"
    and g2: "\<forall>y<8. \<forall>x<8.
                        bitmap g ! (y * 8 + x)
                          = (if cell_pixel three_cell_font (0, 0) (int y) (int x) = 0x00
                             then 0xff000000 else 0x00000000)"
    by blast
  have g: "g = legend_glyph three_cell_font 0x41 (0, 0)"
    using g1 by simp
  have y5: "(5::nat) < 8" and x0: "(0::nat) < 8" by simp_all
  have "bitmap g ! (5 * 8 + 0)
               = (if cell_pixel three_cell_font (0, 0) (int 5) (int 0) = 0x00
                  then 0xff000000 else 0x00000000)"
    using g2 y5 x0 by blast
  then have b0: "bitmap (legend_glyph three_cell_font 0x41 (0, 0)) ! (5 * 8 + 0) = 0xff000000"
    using p0 g by simp
  note tm = t [THEN conjunct2, rule_format, OF m]
  note tm' = tm [unfolded three_cell_font_cells]
  have i: "(1::nat) < length ?gs" and y: "(3::nat) < 8" and x7: "(7::nat) < 8" and x6: "(6::nat) < 8"
    by simp_all
  have "bitmap (?gs ! 1) ! (3 * 8 + 7)
          = (if cell_pixel three_cell_font ([(0, 0), (0, 16)] ! 1) (int 3) (int 7) = 0x00
             then 0xff000000 else 0x00000000)"
    using tm' i y x7 by blast
  then have b7: "bitmap (legend_glyph three_cell_font 0x42 (0, 16)) ! (3 * 8 + 7) = 0xff000000"
    using p7 by simp
  have "bitmap (?gs ! 1) ! (3 * 8 + 6)
          = (if cell_pixel three_cell_font ([(0, 0), (0, 16)] ! 1) (int 3) (int 6) = 0x00
             then 0xff000000 else 0x00000000)"
    using tm' i y x6 by blast
  then have b6: "bitmap (legend_glyph three_cell_font 0x42 (0, 16)) ! (3 * 8 + 6) = 0x00000000"
    using p6 by simp
  have "0xff000000 \<in> set (bitmap (?gs ! 1))"
    using tm' i by blast
  then have ink: "0xff000000 \<in> set (bitmap (legend_glyph three_cell_font 0x42 (0, 16)))"
    by simp
  show ?thesis
    using m s f c n three_cell_font_cells p0 b0 p7 b7 p6 b6 ink by simp
qed

subsection \<open>The invariant of the scan\<close>

lemma cell_step_Inr:
  assumes "cell_step chars font n gy gx st = Inr st'"
  shows "st' = st
       \<or> (int (length (st_glyphs st)) \<noteq> n
          \<and> (\<exists>r it' c g a2. next_font_char chars (st_font_char_iter st) = Inr (r, it', c)
                \<and> st' = \<lparr>st_glyphs = st_glyphs st @ [g], st_font_char_iter = it', st_arena = a2\<rparr>))"
  using assms unfolding cell_step_def Let_def bind_err_def
  by (auto split: sum.splits if_splits prod.splits)

lemma cell_step_scan_inv:
  assumes "scan_inv chars n st" "cell_step chars font n gy gx st = Inr st'"
  shows "scan_inv chars n st'"
proof -
  from assms(1) obtain xs where lr: "legend_rest chars (st_font_char_iter st) xs"
    and cnt: "int (length (st_glyphs st)) + int (length (filter not_space xs)) = n"
    by (auto simp: scan_inv_def)
  from cell_step_Inr [OF assms(2)]
  consider "st' = st"
    | r it' c g a2 where "int (length (st_glyphs st)) \<noteq> n"
        "next_font_char chars (st_font_char_iter st) = Inr (r, it', c)"
        "st' = \<lparr>st_glyphs = st_glyphs st @ [g], st_font_char_iter = it', st_arena = a2\<rparr>"
    by blast
  then show ?thesis
  proof cases
    case 1
    then show ?thesis using assms(1) by simp
  next
    case 2
    from 2(1) cnt obtain x others where f: "filter not_space xs = x # others"
      by (cases "filter not_space xs") auto
    from next_font_char_spec [OF lr f]
    obtain it1 xs1 where "next_font_char chars (st_font_char_iter st) = Inr (fst x, it1, snd x)"
      and lr1: "legend_rest chars it1 xs1" and f1: "filter not_space xs1 = others"
      by blast
    then have "it' = it1" using 2(2) by simp
    then show ?thesis
      using 2(3) lr1 f1 cnt f by (auto simp: scan_inv_def)
  qed
qed

lemma run_cells_scan_inv:
  assumes "scan_inv chars n st" "run_cells chars font n cells st = Inr st'"
  shows "scan_inv chars n st'"
  using assms
proof (induction cells arbitrary: st)
  case Nil
  then show ?case by simp
next
  case (Cons cell cells)
  from Cons.prems(2) obtain st1 where s1: "cell_step chars font n (fst cell) (snd cell) st = Inr st1"
    and r: "run_cells chars font n cells st1 = Inr st'"
    by (cases "cell_step chars font n (fst cell) (snd cell) st") auto
  from Cons.IH [OF cell_step_scan_inv [OF Cons.prems(1) s1] r] show ?case .
qed

lemma scan_inv_next_font_char:
  assumes "scan_inv chars n st" "int (length (st_glyphs st)) \<noteq> n"
  shows "\<exists>xs. chars_of chars (st_font_char_iter st) = Inr xs \<and> filter not_space xs \<noteq> []"
    and "\<exists>char_data it' c.
           next_font_char chars (st_font_char_iter st) = Inr (char_data, it', c)
           \<and> \<not> char_is_space c
           \<and> 0 \<le> sv_size it' \<and> sv_data it' + sv_size it' = int (length chars)"
proof -
  from assms(1) obtain xs where lr: "legend_rest chars (st_font_char_iter st) xs"
    and cnt: "int (length (st_glyphs st)) + int (length (filter not_space xs)) = n"
    by (auto simp: scan_inv_def)
  from assms(2) cnt obtain x others where f: "filter not_space xs = x # others"
    by (cases "filter not_space xs") auto
  show "\<exists>xs. chars_of chars (st_font_char_iter st) = Inr xs \<and> filter not_space xs \<noteq> []"
    using lr f by (auto simp: legend_rest_def)
  from next_font_char_spec [OF lr f]
  obtain it1 xs1 where nx: "next_font_char chars (st_font_char_iter st) = Inr (fst x, it1, snd x)"
    and lr1: "legend_rest chars it1 xs1"
    by blast
  have "x \<in> set (filter not_space xs)" using f by simp
  then have "\<not> char_is_space (snd x)" by (simp add: not_space_def)
  moreover have "0 \<le> sv_size it1 \<and> sv_data it1 + sv_size it1 = int (length chars)"
    using lr1 by (simp add: legend_rest_def cursor_ok_def)
  ultimately show "\<exists>char_data it' c.
                  next_font_char chars (st_font_char_iter st) = Inr (char_data, it', c)
                  \<and> \<not> char_is_space c
                  \<and> 0 \<le> sv_size it' \<and> sv_data it' + sv_size it' = int (length chars)"
    using nx by blast
qed

lemma scan_inv_start:
  assumes "utf8_validate chars (view_of chars) = Inr True"
    and "count_font_chars chars (view_of chars) 0 = Inr n"
  shows "scan_inv chars n (scan_start chars a)"
proof -
  from legend_rest_start [OF assms(1)]
  obtain xs0 where lr0: "legend_rest chars (view_of chars) xs0" by blast
  have "n = int (length (filter not_space xs0))"
    using count_font_chars_spec [OF lr0, of 0] assms(2) by simp
  then show ?thesis
    using lr0 by (auto simp: scan_inv_def scan_start_def)
qed

text \<open>
  C10. For a legend that the validator accepts and the count \<open>n\<close> of the pre-scan:
  \<open>scan_inv\<close> holds when the loops over the grid are entered, every run of their body
  keeps it, hence it holds in every state reached by scanning any list of cells; and
  whenever it holds and the output array is not full, the characters ahead of the cursor
  contain one that is not whitespace, and the whitespace-skipping loop returns that
  character with a cursor whose remaining size is not negative and whose end is still
  the end of the legend buffer.
\<close>

theorem legend_cursor_stays_in_buffer:
  assumes "utf8_validate chars (view_of chars) = Inr True"
    and "count_font_chars chars (view_of chars) 0 = Inr n"
  shows "scan_inv chars n (scan_start chars a)
       \<and> (\<forall>font gy gx st st'.
            scan_inv chars n st \<and> cell_step chars font n gy gx st = Inr st'
              \<longrightarrow> scan_inv chars n st')
       \<and> (\<forall>font cells st.
            run_cells chars font n cells (scan_start chars a) = Inr st \<longrightarrow> scan_inv chars n st)
       \<and> (\<forall>st. scan_inv chars n st \<and> int (length (st_glyphs st)) \<noteq> n \<longrightarrow>
            (\<exists>xs. chars_of chars (st_font_char_iter st) = Inr xs \<and> filter not_space xs \<noteq> [])
            \<and> (\<exists>char_data it' c.
                  next_font_char chars (st_font_char_iter st) = Inr (char_data, it', c)
                  \<and> \<not> char_is_space c
                  \<and> 0 \<le> sv_size it' \<and> sv_data it' + sv_size it' = int (length chars)))"
proof (intro conjI allI impI)
  show start: "scan_inv chars n (scan_start chars a)"
    by (rule scan_inv_start [OF assms])
  show "scan_inv chars n st'"
    if "scan_inv chars n st \<and> cell_step chars font n gy gx st = Inr st'" for font gy gx st st'
    using that cell_step_scan_inv by blast
  show "scan_inv chars n st"
    if "run_cells chars font n cells (scan_start chars a) = Inr st" for font cells st
    using run_cells_scan_inv [OF start that] .
  show "\<exists>xs. chars_of chars (st_font_char_iter st) = Inr xs \<and> filter not_space xs \<noteq> []"
    if "scan_inv chars n st \<and> int (length (st_glyphs st)) \<noteq> n" for st
    using that scan_inv_next_font_char(1) by blast
  show "\<exists>char_data it' c.
                  next_font_char chars (st_font_char_iter st) = Inr (char_data, it', c)
                  \<and> \<not> char_is_space c
                  \<and> 0 \<le> sv_size it' \<and> sv_data it' + sv_size it' = int (length chars)"
    if "scan_inv chars n st \<and> int (length (st_glyphs st)) \<noteq> n" for st
    using that scan_inv_next_font_char(2) by blast
qed

theorem legend_cursor_stays_in_buffer_witness:
  "utf8_validate [0x20, 0x41, 0x0a, 0xE2, 0x82, 0xAC, 0x20] (view_of [0x20, 0x41, 0x0a, 0xE2, 0x82, 0xAC, 0x20])
     = Inr True
   \<and> count_font_chars [0x20, 0x41, 0x0a, 0xE2, 0x82, 0xAC, 0x20]
        (view_of [0x20, 0x41, 0x0a, 0xE2, 0x82, 0xAC, 0x20]) 0 = Inr 2
   \<and> scan_inv [0x20, 0x41, 0x0a, 0xE2, 0x82, 0xAC, 0x20] 2
        (scan_start [0x20, 0x41, 0x0a, 0xE2, 0x82, 0xAC, 0x20] \<lparr>begin_ptr = 4096, end_ptr = 8192\<rparr>)
   \<and> length (st_glyphs (scan_start [0x20, 0x41, 0x0a, 0xE2, 0x82, 0xAC, 0x20]
                            \<lparr>begin_ptr = 4096, end_ptr = 8192\<rparr>)) = 0
   \<and> next_font_char [0x20, 0x41, 0x0a, 0xE2, 0x82, 0xAC, 0x20]
        (view_of [0x20, 0x41, 0x0a, 0xE2, 0x82, 0xAC, 0x20])
       = Inr (\<lparr>sv_data = 1, sv_size = 1\<rparr>, \<lparr>sv_data = 2, sv_size = 5\<rparr>, 0x41)
   \<and> next_font_char [0x20, 0x41, 0x0a, 0xE2, 0x82, 0xAC, 0x20] \<lparr>sv_data = 2, sv_size = 5\<rparr>
       = Inr (\<lparr>sv_data = 3, sv_size = 3\<rparr>, \<lparr>sv_data = 6, sv_size = 1\<rparr>, 0x20AC)"
proof -
  let ?chars = "[0x20, 0x41, 0x0a, 0xE2, 0x82, 0xAC, 0x20] :: u8 list"
  have v: "utf8_validate ?chars (view_of ?chars) = Inr True" by code_simp
  have c: "count_font_chars ?chars (view_of ?chars) 0 = Inr 2" by code_simp
  note t = legend_cursor_stays_in_buffer [OF v c, of "\<lparr>begin_ptr = 4096, end_ptr = 8192\<rparr>"]
  have i: "scan_inv ?chars 2 (scan_start ?chars \<lparr>begin_ptr = 4096, end_ptr = 8192\<rparr>)"
    using t by blast
  have l: "length (st_glyphs (scan_start ?chars \<lparr>begin_ptr = 4096, end_ptr = 8192\<rparr>)) = 0"
    by (simp add: scan_start_def)
  have n1: "next_font_char ?chars (view_of ?chars)
       = Inr (\<lparr>sv_data = 1, sv_size = 1\<rparr>, \<lparr>sv_data = 2, sv_size = 5\<rparr>, 0x41)"
    by code_simp
  have n2: "next_font_char ?chars \<lparr>sv_data = 2, sv_size = 5\<rparr>
       = Inr (\<lparr>sv_data = 3, sv_size = 3\<rparr>, \<lparr>sv_data = 6, sv_size = 1\<rparr>, 0x20AC)"
    by code_simp
  show ?thesis
    using v c i l n1 n2 by simp
qed

end
